theory Spec2Isabelle
  imports Complex_Main "HOL-Library.AList"
begin

section \<open>The naive Bayes classifier of bayesclassifier.py\<close>

text \<open>
  The class \<^verbatim>\<open>NaiveBayesClassifier\<close> is embedded as a record of its four fields and
  one function per method. Modelling decisions:
  \<^item> a Python dict is an association list in insertion order: lookup is \<open>map_of\<close>,
    assignment is \<open>AList.update\<close> (replace in place, or append a new key), \<open>pop(k, None)\<close>
    is \<open>AList.delete\<close>;
  \<^item> Python integers are \<open>int\<close>; the true division \<^verbatim>\<open>/\<close> of two integers and the
    arithmetic on its results are exact rational arithmetic (\<open>rat\<close>), so rounding of
    floating-point numbers is not part of the model;
  \<^item> a raised exception is a value: read-only methods return \<open>error + 'a\<close>, mutating
    methods return the state at the moment of the return or of the raise, paired with
    the outcome;
  \<^item> a category is a string, an optional category argument is a \<open>string option\<close>
    (\<open>None\<close> is Python's None);
  \<^item> the NLTK library is not part of the repository: its stopword list and its word
    tokenizer are parameters, bundled in the record \<open>nltk\<close>;
  \<^item> iterating over a Python set has no specified order; the model iterates in the order
    of first insertion.
\<close>

subsection \<open>Data model\<close>

datatype error = KeyError | ZeroDivisionError | IndexError

type_synonym 'v dict = "(string \<times> 'v) list"

record model =
  categories :: "string list"
  word_memo :: "(int dict) dict"
  document_count :: "int dict"
  total_document_count :: int

record nltk =
  stopwords_english :: "string list"
  word_tokenize :: "string \<Rightarrow> string list"

text \<open>\<^verbatim>\<open>d[k]\<close>: raises KeyError when the key is missing.\<close>

definition getitem :: "'v dict \<Rightarrow> string \<Rightarrow> error + 'v" where
  "getitem d k = (case map_of d k of None \<Rightarrow> Inl KeyError | Some v \<Rightarrow> Inr v)"

text \<open>\<^verbatim>\<open>a / b\<close> on two integers: raises ZeroDivisionError when \<open>b\<close> is 0.\<close>

definition truediv :: "int \<Rightarrow> int \<Rightarrow> error + rat" where
  "truediv a b = (if b = 0 then Inl ZeroDivisionError else Inr (of_int a / of_int b))"

text \<open>\<^verbatim>\<open>sum(f(x) for x in xs)\<close>, stopping at the first element on which \<open>f\<close> raises.\<close>

fun sum_gen :: "('a \<Rightarrow> error + int) \<Rightarrow> 'a list \<Rightarrow> error + int" where
  "sum_gen f [] = Inr 0"
| "sum_gen f (x # xs) =
     (case f x of
        Inl e \<Rightarrow> Inl e
      | Inr v \<Rightarrow> (case sum_gen f xs of Inl e \<Rightarrow> Inl e | Inr s \<Rightarrow> Inr (v + s)))"

subsection \<open>Construction\<close>

definition init_category :: "string \<Rightarrow> model \<Rightarrow> model" where
  "init_category category m =
     m\<lparr>word_memo := AList.update category [] (word_memo m),
       document_count := AList.update category 0 (document_count m)\<rparr>"

definition init :: "string list \<Rightarrow> model" where
  "init cats =
     fold init_category cats
       \<lparr>categories = cats, word_memo = [], document_count = [], total_document_count = 0\<rparr>"

subsection \<open>Frequency store: read accessors\<close>

text \<open>
  \<^verbatim>\<open>if not category\<close> selects the all-categories branch for None and for every falsy
  category, which for a string is the empty string \<open>[]\<close>.
\<close>

fun total_word_count_all :: "model \<Rightarrow> string list \<Rightarrow> int \<Rightarrow> error + int" where
  "total_word_count_all m [] word_count = Inr word_count"
| "total_word_count_all m (category # cs) word_count =
     (case getitem (word_memo m) category of
        Inl e \<Rightarrow> Inl e
      | Inr d \<Rightarrow> total_word_count_all m cs (word_count + sum_list (map snd d)))"

fun total_word_count :: "model \<Rightarrow> string option \<Rightarrow> error + int" where
  "total_word_count m None = total_word_count_all m (categories m) 0"
| "total_word_count m (Some category) =
     (if category = [] then total_word_count_all m (categories m) 0
      else (case getitem (word_memo m) category of
              Inl e \<Rightarrow> Inl e
            | Inr d \<Rightarrow> Inr (sum_list (map snd d))))"

fun vocab_size_all :: "model \<Rightarrow> string list \<Rightarrow> string set \<Rightarrow> error + int" where
  "vocab_size_all m [] vocab_set = Inr (int (card vocab_set))"
| "vocab_size_all m (cat # cs) vocab_set =
     (case getitem (word_memo m) cat of
        Inl e \<Rightarrow> Inl e
      | Inr d \<Rightarrow> vocab_size_all m cs (vocab_set \<union> set (map fst d)))"

fun vocab_size :: "model \<Rightarrow> string option \<Rightarrow> error + int" where
  "vocab_size m None = vocab_size_all m (categories m) {}"
| "vocab_size m (Some category) =
     (if category = [] then vocab_size_all m (categories m) {}
      else (case getitem (word_memo m) category of
              Inl e \<Rightarrow> Inl e
            | Inr d \<Rightarrow> Inr (int (length (map fst d)))))"

definition word_count :: "model \<Rightarrow> string \<Rightarrow> string \<Rightarrow> error + int" where
  "word_count m word category =
     (case getitem (word_memo m) category of
        Inl e \<Rightarrow> Inl e
      | Inr d \<Rightarrow> (case map_of d word of None \<Rightarrow> Inr 0 | Some n \<Rightarrow> Inr n))"

subsection \<open>Probability engine\<close>

definition category_probability :: "model \<Rightarrow> string \<Rightarrow> error + rat" where
  "category_probability m category =
     (case getitem (document_count m) category of
        Inl e \<Rightarrow> Inl e
      | Inr n \<Rightarrow>
          (case sum_gen (getitem (document_count m)) (categories m) of
             Inl e \<Rightarrow> Inl e
           | Inr s \<Rightarrow> truediv n s))"

definition word_probability_category :: "model \<Rightarrow> string \<Rightarrow> string \<Rightarrow> error + rat" where
  "word_probability_category m word category =
     (case getitem (document_count m) category of
        Inl e \<Rightarrow> Inl e
      | Inr n \<Rightarrow>
          if n > 0 then
            (case word_count m word category of
               Inl e \<Rightarrow> Inl e
             | Inr k \<Rightarrow>
                 (case getitem (document_count m) category of
                    Inl e \<Rightarrow> Inl e
                  | Inr n' \<Rightarrow> truediv k n'))
          else Inr 0)"

definition word_probability :: "model \<Rightarrow> string \<Rightarrow> error + rat" where
  "word_probability m word =
     (case sum_gen (word_count m word) (categories m) of
        Inl e \<Rightarrow> Inl e
      | Inr s \<Rightarrow> truediv s (total_document_count m))"

subsection \<open>Classifier\<close>

fun text_likelihood_loop :: "model \<Rightarrow> string list \<Rightarrow> string \<Rightarrow> rat \<Rightarrow> error + rat" where
  "text_likelihood_loop m [] category score = Inr score"
| "text_likelihood_loop m (word # ws) category score =
     (case word_probability m word of
        Inl e \<Rightarrow> Inl e
      | Inr word_prob \<Rightarrow>
          (case word_probability_category m word category of
             Inl e \<Rightarrow> Inl e
           | Inr word_cat_probability \<Rightarrow>
               if word_prob > 0 \<and> word_cat_probability > 0
               then text_likelihood_loop m ws category (score * (word_cat_probability / word_prob))
               else text_likelihood_loop m ws category score))"

definition text_likelihood :: "model \<Rightarrow> string list \<Rightarrow> string \<Rightarrow> error + rat" where
  "text_likelihood m bag_of_words category =
     (case text_likelihood_loop m bag_of_words category 1 of
        Inl e \<Rightarrow> Inl e
      | Inr score \<Rightarrow>
          (case category_probability m category of
             Inl e \<Rightarrow> Inl e
           | Inr p \<Rightarrow> Inr (score * p)))"

definition tokenize :: "nltk \<Rightarrow> string \<Rightarrow> string list" where
  "tokenize nl text =
     remdups (filter (\<lambda>word. word \<notin> set (stopwords_english nl)) (word_tokenize nl text))"

fun classify_loop ::
  "model \<Rightarrow> string list \<Rightarrow> string list \<Rightarrow> string \<Rightarrow> rat \<Rightarrow> error + (string \<times> rat)" where
  "classify_loop m bag_of_words [] max_category max_likelihood =
     Inr (max_category, max_likelihood)"
| "classify_loop m bag_of_words (category # cs) max_category max_likelihood =
     (case text_likelihood m bag_of_words category of
        Inl e \<Rightarrow> Inl e
      | Inr likelihood \<Rightarrow>
          if likelihood > max_likelihood
          then classify_loop m bag_of_words cs category likelihood
          else classify_loop m bag_of_words cs max_category max_likelihood)"

definition classify :: "nltk \<Rightarrow> model \<Rightarrow> string \<Rightarrow> error + (string \<times> rat)" where
  "classify nl m text =
     (let bag_of_words = tokenize nl text in
      case categories m of
        [] \<Rightarrow> Inl IndexError
      | first # _ \<Rightarrow> classify_loop m bag_of_words (categories m) first 0)"

subsection \<open>Trainer\<close>

definition add_word :: "model \<Rightarrow> string \<Rightarrow> string \<Rightarrow> model \<times> error option" where
  "add_word m word category =
     (case getitem (word_memo m) category of
        Inl e \<Rightarrow> (m, Some e)
      | Inr d \<Rightarrow>
          (case map_of d word of
             None \<Rightarrow>
               (m\<lparr>word_memo := AList.update category (AList.update word 1 d) (word_memo m)\<rparr>,
                None)
           | Some n \<Rightarrow>
               (m\<lparr>word_memo := AList.update category (AList.update word (n + 1) d) (word_memo m)\<rparr>,
                None)))"

fun add_words :: "model \<Rightarrow> string list \<Rightarrow> string \<Rightarrow> model \<times> error option" where
  "add_words m [] category = (m, None)"
| "add_words m (word # ws) category =
     (case add_word m word category of
        (m', Some e) \<Rightarrow> (m', Some e)
      | (m', None) \<Rightarrow> add_words m' ws category)"

definition train :: "nltk \<Rightarrow> model \<Rightarrow> string \<Rightarrow> string \<Rightarrow> model \<times> error option" where
  "train nl m text category =
     (case getitem (document_count m) category of
        Inl e \<Rightarrow> (m, Some e)
      | Inr n \<Rightarrow>
          (let m1 = m\<lparr>document_count := AList.update category (n + 1) (document_count m)\<rparr>;
               m2 = m1\<lparr>total_document_count := total_document_count m1 + 1\<rparr>;
               bag_of_words = tokenize nl text
           in add_words m2 bag_of_words category))"

subsection \<open>Removal and cleanup\<close>

definition pop_word :: "model \<Rightarrow> string \<Rightarrow> string \<Rightarrow> model \<times> error option" where
  "pop_word m word category =
     (case getitem (word_memo m) category of
        Inl e \<Rightarrow> (m, Some e)
      | Inr d \<Rightarrow>
          (m\<lparr>word_memo := AList.update category (AList.delete word d) (word_memo m)\<rparr>, None))"

fun remove_word_all :: "model \<Rightarrow> string \<Rightarrow> string list \<Rightarrow> model \<times> error option" where
  "remove_word_all m word [] = (m, None)"
| "remove_word_all m word (cat # cs) =
     (case pop_word m word cat of
        (m', Some e) \<Rightarrow> (m', Some e)
      | (m', None) \<Rightarrow> remove_word_all m' word cs)"

fun remove_word :: "model \<Rightarrow> string \<Rightarrow> string option \<Rightarrow> model \<times> error option" where
  "remove_word m word None = remove_word_all m word (categories m)"
| "remove_word m word (Some category) =
     (if category \<noteq> [] then pop_word m word category
      else remove_word_all m word (categories m))"

text \<open>The inner scan of cleanup: the words of one mapping to put into \<^verbatim>\<open>to_remove\<close>.\<close>

fun cleanup_scan :: "model \<Rightarrow> rat \<Rightarrow> string list \<Rightarrow> string list \<Rightarrow> error + string list" where
  "cleanup_scan m threshold [] to_remove = Inr to_remove"
| "cleanup_scan m threshold (word # ws) to_remove =
     (case word_probability m word of
        Inl e \<Rightarrow> Inl e
      | Inr p \<Rightarrow>
          if p \<ge> threshold
          then cleanup_scan m threshold ws (List.insert word to_remove)
          else cleanup_scan m threshold ws to_remove)"

fun cleanup_remove :: "model \<Rightarrow> string list \<Rightarrow> int \<Rightarrow> model \<times> (error + int)" where
  "cleanup_remove m [] removed_count = (m, Inr removed_count)"
| "cleanup_remove m (word # ws) removed_count =
     (case remove_word m word None of
        (m', Some e) \<Rightarrow> (m', Inl e)
      | (m', None) \<Rightarrow> cleanup_remove m' ws (removed_count + 1))"

fun cleanup_loop :: "model \<Rightarrow> rat \<Rightarrow> string list \<Rightarrow> int \<Rightarrow> model \<times> (error + int)" where
  "cleanup_loop m threshold [] removed_count = (m, Inr removed_count)"
| "cleanup_loop m threshold (cat # cs) removed_count =
     (case getitem (word_memo m) cat of
        Inl e \<Rightarrow> (m, Inl e)
      | Inr d \<Rightarrow>
          (case cleanup_scan m threshold (map fst d) [] of
             Inl e \<Rightarrow> (m, Inl e)
           | Inr to_remove \<Rightarrow>
               (case cleanup_remove m to_remove removed_count of
                  (m', Inl e) \<Rightarrow> (m', Inl e)
                | (m', Inr removed_count') \<Rightarrow> cleanup_loop m' threshold cs removed_count')))"

text \<open>
  cleanup prints \<^verbatim>\<open>"cleanup removed N words"\<close> and returns None; the model returns the
  final state and the number \<open>N\<close> that is printed.
\<close>

definition cleanup :: "model \<Rightarrow> rat \<Rightarrow> model \<times> (error + int)" where
  "cleanup m threshold = cleanup_loop m threshold (categories m) 0"

subsection \<open>Sequences of calls\<close>

text \<open>A caller training on a list of (text, category) pairs, stopping at the first raise.\<close>

fun train_all :: "nltk \<Rightarrow> model \<Rightarrow> (string \<times> string) list \<Rightarrow> model \<times> error option" where
  "train_all nl m [] = (m, None)"
| "train_all nl m ((text, category) # rest) =
     (case train nl m text category of
        (m', Some e) \<Rightarrow> (m', Some e)
      | (m', None) \<Rightarrow> train_all nl m' rest)"

text \<open>
  A caller issuing any of the three mutating calls. \<open>perform\<close> gives the state the
  instance is left in by one call, whether the call returned or raised, so a run also
  covers callers that catch an exception and go on.
\<close>

datatype call = Train string string | RemoveWord string "string option" | Cleanup rat

fun perform :: "nltk \<Rightarrow> model \<Rightarrow> call \<Rightarrow> model" where
  "perform nl m (Train text category) = fst (train nl m text category)"
| "perform nl m (RemoveWord word category) = fst (remove_word m word category)"
| "perform nl m (Cleanup threshold) = fst (cleanup m threshold)"

definition run :: "nltk \<Rightarrow> model \<Rightarrow> call list \<Rightarrow> model" where
  "run nl m calls = foldl (perform nl) m calls"

subsection \<open>Well-formed states\<close>

text \<open>
  The states the class can be in: every configured category has a mapping and a
  document counter, no other category has a counter, the counts of a mapping lie
  between 1 and the category's document count, and the total is the sum of the
  counters of the configured categories (each counted once).
\<close>

definition category_inv :: "model \<Rightarrow> string \<Rightarrow> bool" where
  "category_inv m c =
     (case map_of (word_memo m) c of
        None \<Rightarrow> False
      | Some d \<Rightarrow>
          (case map_of (document_count m) c of
             None \<Rightarrow> False
           | Some n \<Rightarrow> 0 \<le> n \<and> distinct (map fst d) \<and> (\<forall>(w, k) \<in> set d. 1 \<le> k \<and> k \<le> n)))"

definition model_inv :: "model \<Rightarrow> bool" where
  "model_inv m \<longleftrightarrow>
     fst ` set (document_count m) \<subseteq> set (categories m) \<and>
     (\<forall>c \<in> set (categories m). category_inv m c) \<and>
     sum_gen (getitem (document_count m)) (remdups (categories m)) = Inr (total_document_count m)"

subsection \<open>Notions used to state what cleanup and classify do\<close>

text \<open>The tokens present in the mappings of the categories \<open>cs\<close>.\<close>

definition vocab_in :: "model \<Rightarrow> string list \<Rightarrow> string set" where
  "vocab_in m cs =
     (\<Union>c \<in> set cs. case map_of (word_memo m) c of None \<Rightarrow> {} | Some d \<Rightarrow> fst ` set d)"

text \<open>The tokens present in the mapping of some configured category.\<close>

definition vocabulary :: "model \<Rightarrow> string set" where
  "vocabulary m =
     (\<Union>c \<in> set (categories m). case map_of (word_memo m) c of None \<Rightarrow> {} | Some d \<Rightarrow> fst ` set d)"

text \<open>The test of cleanup's scan: the marginal probability of the word reaches the threshold.\<close>

definition noisy :: "model \<Rightarrow> rat \<Rightarrow> string \<Rightarrow> bool" where
  "noisy m threshold word =
     (case word_probability m word of Inl e \<Rightarrow> False | Inr p \<Rightarrow> p \<ge> threshold)"

text \<open>
  \<open>purged T m m'\<close>: \<open>m'\<close> is \<open>m\<close> with the words of \<open>T\<close> removed from the mapping of
  every configured category, and nothing else changed there.
\<close>

definition purged :: "string set \<Rightarrow> model \<Rightarrow> model \<Rightarrow> bool" where
  "purged T m m' \<longleftrightarrow>
     categories m' = categories m \<and> document_count m' = document_count m \<and>
     total_document_count m' = total_document_count m \<and>
     (\<forall>c \<in> set (categories m).
        map_of (word_memo m') c = map_option (filter (\<lambda>p. fst p \<notin> T)) (map_of (word_memo m) c))"

text \<open>
  \<open>first_best score cs winner\<close>: \<open>winner\<close> occurs in \<open>cs\<close>, every category before its
  first occurrence has a strictly smaller score, and no category after it has a greater
  one. So \<open>winner\<close> has the greatest score, and is the earliest category that has it.
\<close>

fun first_best :: "(string \<Rightarrow> rat) \<Rightarrow> string list \<Rightarrow> string \<Rightarrow> bool" where
  "first_best score [] winner = False"
| "first_best score (c # cs) winner =
     (if c = winner then list_all (\<lambda>x. score x \<le> score winner) cs
      else score c < score winner \<and> first_best score cs winner)"

subsection \<open>Views used in the proofs\<close>

text \<open>The document count of a category as a number, 0 when the key is missing.\<close>

definition doc_count_of :: "model \<Rightarrow> string \<Rightarrow> int" where
  "doc_count_of m c = (case map_of (document_count m) c of None \<Rightarrow> 0 | Some n \<Rightarrow> n)"

text \<open>The count of a word in a category as a number, 0 when either key is missing.\<close>

definition word_count_of :: "model \<Rightarrow> string \<Rightarrow> string \<Rightarrow> int" where
  "word_count_of m w c =
     (case map_of (word_memo m) c of
        None \<Rightarrow> 0
      | Some d \<Rightarrow> (case map_of d w of None \<Rightarrow> 0 | Some k \<Rightarrow> k))"

subsection \<open>Example data\<close>

text \<open>A stand-in for NLTK in the examples: one stopword, and a text is split at spaces.\<close>

fun split_spaces :: "string \<Rightarrow> string \<Rightarrow> string list" where
  "split_spaces [] cur = (if cur = [] then [] else [cur])"
| "split_spaces (ch # rest) cur =
     (if ch = CHR '' '' then (if cur = [] then split_spaces rest [] else cur # split_spaces rest [])
      else split_spaces rest (cur @ [ch]))"

definition toy_nltk :: nltk where
  "toy_nltk = \<lparr>stopwords_english = [''the''], word_tokenize = (\<lambda>text. split_spaces text [])\<rparr>"

text \<open>
  Scenario A of the specification: the state after
  \<^verbatim>\<open>train("free money now", "spam"); train("meeting agenda", "ham")\<close>.
\<close>

definition scenario_model :: model where
  "scenario_model =
     \<lparr>categories = [''spam'', ''ham''],
      word_memo = [(''spam'', [(''free'', 1), (''money'', 1), (''now'', 1)]),
                   (''ham'', [(''meeting'', 1), (''agenda'', 1)])],
      document_count = [(''spam'', 1), (''ham'', 1)],
      total_document_count = 2\<rparr>"

text \<open>
  Two categories that share a word: the state after
  \<^verbatim>\<open>train("hello", "spam"); train("hello you", "ham")\<close>.
\<close>

definition shared_model :: model where
  "shared_model =
     \<lparr>categories = [''spam'', ''ham''],
      word_memo = [(''spam'', [(''hello'', 1)]), (''ham'', [(''hello'', 1), (''you'', 1)])],
      document_count = [(''spam'', 1), (''ham'', 1)],
      total_document_count = 2\<rparr>"


text \<open>
  A model whose first category is the empty string: the state after
  \<^verbatim>\<open>train("x", ""); train("x y", "ham")\<close>.
\<close>

definition blank_model :: model where
  "blank_model =
     \<lparr>categories = [[], ''ham''],
      word_memo = [([], [(''x'', 1)]), (''ham'', [(''x'', 1), (''y'', 1)])],
      document_count = [([], 1), (''ham'', 1)],
      total_document_count = 2\<rparr>"

section \<open>Properties\<close>

subsection \<open>What removal and cleanup leave alone\<close>

lemma pop_word_frame:
  "categories (fst (pop_word m w c)) = categories m \<and>
   document_count (fst (pop_word m w c)) = document_count m \<and>
   total_document_count (fst (pop_word m w c)) = total_document_count m"
  by (simp add: pop_word_def split: sum.splits)

lemma remove_word_all_frame:
  "categories (fst (remove_word_all m w cs)) = categories m \<and>
   document_count (fst (remove_word_all m w cs)) = document_count m \<and>
   total_document_count (fst (remove_word_all m w cs)) = total_document_count m"
proof (induction cs arbitrary: m)
  case Nil
  show ?case by simp
next
  case (Cons c cs)
  obtain m' r where p: "pop_word m w c = (m', r)" by (cases "pop_word m w c")
  have f: "categories m' = categories m \<and> document_count m' = document_count m \<and>
      total_document_count m' = total_document_count m"
    using pop_word_frame [of m w c] p by simp
  show ?case
  proof (cases r)
    case None
    then show ?thesis using p f Cons.IH [of m'] by simp
  next
    case (Some e)
    then show ?thesis using p f by simp
  qed
qed

lemma remove_word_frame:
  "categories (fst (remove_word m w copt)) = categories m \<and>
   document_count (fst (remove_word m w copt)) = document_count m \<and>
   total_document_count (fst (remove_word m w copt)) = total_document_count m"
  by (cases copt) (simp_all add: remove_word_all_frame pop_word_frame)

lemma cleanup_remove_frame:
  "categories (fst (cleanup_remove m ws k)) = categories m \<and>
   document_count (fst (cleanup_remove m ws k)) = document_count m \<and>
   total_document_count (fst (cleanup_remove m ws k)) = total_document_count m"
proof (induction ws arbitrary: m k)
  case Nil
  show ?case by simp
next
  case (Cons w ws)
  obtain m' r where p: "remove_word m w None = (m', r)" by (cases "remove_word m w None")
  have f: "categories m' = categories m \<and> document_count m' = document_count m \<and>
      total_document_count m' = total_document_count m"
    using remove_word_frame [of m w None] p by simp
  show ?case
  proof (cases r)
    case None
    then show ?thesis using p f Cons.IH [of m' "k + 1"] by simp
  next
    case (Some e)
    then show ?thesis using p f by simp
  qed
qed

lemma cleanup_loop_frame:
  "categories (fst (cleanup_loop m thr cs k)) = categories m \<and>
   document_count (fst (cleanup_loop m thr cs k)) = document_count m \<and>
   total_document_count (fst (cleanup_loop m thr cs k)) = total_document_count m"
proof (induction cs arbitrary: m k)
  case Nil
  show ?case by simp
next
  case (Cons c cs)
  show ?case
  proof (cases "getitem (word_memo m) c")
    case (Inl e)
    then show ?thesis by simp
  next
    case (Inr d)
    show ?thesis
    proof (cases "cleanup_scan m thr (map fst d) []")
      case (Inl e)
      then show ?thesis using Inr by simp
    next
      case scan: (Inr ws)
      obtain m' r where p: "cleanup_remove m ws k = (m', r)" by (cases "cleanup_remove m ws k")
      have f: "categories m' = categories m \<and> document_count m' = document_count m \<and>
          total_document_count m' = total_document_count m"
        using cleanup_remove_frame [of m ws k] p by simp
      show ?thesis
      proof (cases r)
        case (Inl e)
        then show ?thesis using Inr scan p f by simp
      next
        case (Inr k')
        then show ?thesis using \<open>getitem (word_memo m) c = Inr d\<close> scan p f Cons.IH [of m' k'] by simp
      qed
    qed
  qed
qed

lemma category_probability_cong:
  "categories m' = categories m \<Longrightarrow> document_count m' = document_count m \<Longrightarrow>
   category_probability m' c = category_probability m c"
  by (auto simp: category_probability_def split: sum.splits)

text \<open>
  Claim C10. For every model state and every threshold, cleanup changes only the
  per-category token mappings: the configured category list, the per-category document
  counts and the total document count are the same after the call (also when it raises),
  and so is every category prior.
\<close>

theorem cleanup_frame:
  "categories (fst (cleanup m threshold)) = categories m \<and>
   document_count (fst (cleanup m threshold)) = document_count m \<and>
   total_document_count (fst (cleanup m threshold)) = total_document_count m \<and>
   category_probability (fst (cleanup m threshold)) c = category_probability m c"
proof -
  have f: "categories (fst (cleanup m threshold)) = categories m \<and>
      document_count (fst (cleanup m threshold)) = document_count m \<and>
      total_document_count (fst (cleanup m threshold)) = total_document_count m"
    unfolding cleanup_def by (rule cleanup_loop_frame)
  then have "category_probability (fst (cleanup m threshold)) c = category_probability m c"
    by (intro category_probability_cong) simp_all
  with f show ?thesis by simp
qed

theorem cleanup_frame_witness:
  "categories (fst (cleanup shared_model 1)) = [''spam'', ''ham''] \<and>
   document_count (fst (cleanup shared_model 1)) = [(''spam'', 1), (''ham'', 1)] \<and>
   total_document_count (fst (cleanup shared_model 1)) = 2 \<and>
   category_probability (fst (cleanup shared_model 1)) ''ham'' = Inr (1 / 2)"
  using cleanup_frame [of shared_model 1 "''ham''"]
  by (simp add: shared_model_def category_probability_def getitem_def truediv_def)

subsection \<open>Falsy category arguments\<close>

text \<open>
  Claim C9. The all-categories branch of remove_word, total_word_count and vocab_size
  is chosen by the truth value of the category argument, so the empty string, even when
  it is a configured category, behaves as an omitted argument: the word is removed from
  every mapping, and the two counts are those of all categories.
\<close>

theorem falsy_category_selects_all:
  "remove_word m word (Some []) = remove_word m word None \<and>
   total_word_count m (Some []) = total_word_count m None \<and>
   vocab_size m (Some []) = vocab_size m None"
  by simp

theorem falsy_category_selects_all_witness:
  "train_all toy_nltk (init [[], ''ham'']) [(''x'', []), (''x y'', ''ham'')] =
     (blank_model, None) \<and>
   remove_word blank_model ''x'' (Some []) =
     (blank_model\<lparr>word_memo := [([], []), (''ham'', [(''y'', 1)])]\<rparr>, None) \<and>
   total_word_count blank_model (Some []) = Inr 3 \<and>
   vocab_size blank_model (Some []) = Inr 2"
  using falsy_category_selects_all [of blank_model "''x''"]
  by (simp add: blank_model_def pop_word_def getitem_def card_insert_if init_def
      init_category_def train_def add_word_def tokenize_def toy_nltk_def)

subsection \<open>Training with an unknown category\<close>

lemma getitem_outside:
  "k \<notin> fst ` set d \<Longrightarrow> getitem d k = Inl KeyError"
  by (simp add: getitem_def map_of_eq_None_iff [THEN iffD2])

lemma train_outside:
  assumes "model_inv m" and "category \<notin> set (categories m)"
  shows "train nl m text category = (m, Some KeyError)"
proof -
  have "category \<notin> fst ` set (document_count m)"
    using assms by (auto simp: model_inv_def)
  then have "getitem (document_count m) category = Inl KeyError"
    by (rule getitem_outside)
  then show ?thesis by (simp add: train_def)
qed

text \<open>
  Claim C4. In a well-formed state, train with a category that is not configured raises
  (a KeyError, at the first statement) and leaves the whole state as it was: mappings,
  document counts and total.
\<close>

theorem train_invalid_category:
  assumes "model_inv m" and "category \<notin> set (categories m)"
  shows "train nl m text category = (m, Some KeyError)"
  using assms by (rule train_outside)

theorem train_invalid_category_witness:
  "model_inv shared_model \<and> ''eggs'' \<notin> set (categories shared_model) \<and>
   train toy_nltk shared_model ''hello you'' ''eggs'' = (shared_model, Some KeyError)"
proof -
  have inv: "model_inv shared_model"
    by (simp add: model_inv_def category_inv_def shared_model_def getitem_def)
  have out: "''eggs'' \<notin> set (categories shared_model)"
    by (simp add: shared_model_def)
  show ?thesis
    using inv out train_invalid_category [OF inv out, of toy_nltk "''hello you''"] by simp
qed

subsection \<open>The invariant\<close>

lemma sum_gen_Inr:
  "(\<And>x. x \<in> set xs \<Longrightarrow> f x = Inr (g x)) \<Longrightarrow> sum_gen f xs = Inr (sum_list (map g xs))"
  by (induction xs) simp_all

lemma entries_iff:
  "distinct (map fst d) \<Longrightarrow>
   (\<forall>(w, k) \<in> set d. P w k) \<longleftrightarrow> (\<forall>w k. map_of d w = Some k \<longrightarrow> P w k)"
  by auto

lemma category_invD:
  assumes "category_inv m c"
  obtains d n where "map_of (word_memo m) c = Some d" "map_of (document_count m) c = Some n"
    "0 \<le> n" "distinct (map fst d)" "\<forall>w k. map_of d w = Some k \<longrightarrow> 1 \<le> k \<and> k \<le> n"
proof -
  from assms obtain d where d: "map_of (word_memo m) c = Some d"
    by (auto simp: category_inv_def split: option.splits)
  from assms d obtain n where n: "map_of (document_count m) c = Some n"
    by (auto simp: category_inv_def split: option.splits)
  from assms d n have p: "0 \<le> n" "distinct (map fst d)" "\<forall>(w, k) \<in> set d. 1 \<le> k \<and> k \<le> n"
    by (simp_all add: category_inv_def)
  then have "\<forall>w k. map_of d w = Some k \<longrightarrow> 1 \<le> k \<and> k \<le> n"
    using entries_iff [of d "\<lambda>w k. 1 \<le> k \<and> k \<le> n"] by blast
  with d n p that show thesis by blast
qed

lemma category_invI:
  assumes "map_of (word_memo m) c = Some d" "map_of (document_count m) c = Some n"
    "0 \<le> n" "distinct (map fst d)" "\<And>w k. map_of d w = Some k \<Longrightarrow> 1 \<le> k \<and> k \<le> n"
  shows "category_inv m c"
proof -
  have "\<forall>(w, k) \<in> set d. 1 \<le> k \<and> k \<le> n"
    using entries_iff [of d "\<lambda>w k. 1 \<le> k \<and> k \<le> n"] assms(4,5) by blast
  with assms show ?thesis by (simp add: category_inv_def)
qed

lemma model_inv_doc_count:
  assumes "model_inv m" "c \<in> set (categories m)"
  shows "getitem (document_count m) c = Inr (doc_count_of m c)" "0 \<le> doc_count_of m c"
proof -
  from assms have "category_inv m c" by (simp add: model_inv_def)
  then obtain n where "map_of (document_count m) c = Some n" "0 \<le> n"
    by (rule category_invD)
  then show "getitem (document_count m) c = Inr (doc_count_of m c)" "0 \<le> doc_count_of m c"
    by (simp_all add: getitem_def doc_count_of_def)
qed

lemma model_inv_total:
  assumes "model_inv m"
  shows "total_document_count m = sum_list (map (doc_count_of m) (remdups (categories m)))"
proof -
  have "sum_gen (getitem (document_count m)) (remdups (categories m)) =
      Inr (sum_list (map (doc_count_of m) (remdups (categories m))))"
    by (rule sum_gen_Inr) (simp add: model_inv_doc_count(1) [OF assms])
  moreover have "sum_gen (getitem (document_count m)) (remdups (categories m)) =
      Inr (total_document_count m)"
    using assms by (simp add: model_inv_def)
  ultimately show ?thesis by simp
qed

lemma model_invI:
  assumes "fst ` set (document_count m) \<subseteq> set (categories m)"
    "\<And>c. c \<in> set (categories m) \<Longrightarrow> category_inv m c"
    "total_document_count m = sum_list (map (doc_count_of m) (remdups (categories m)))"
  shows "model_inv m"
proof -
  have "\<And>c. c \<in> set (remdups (categories m)) \<Longrightarrow>
      getitem (document_count m) c = Inr (doc_count_of m c)"
  proof -
    fix c assume "c \<in> set (remdups (categories m))"
    then have "category_inv m c" using assms(2) by simp
    then obtain n where "map_of (document_count m) c = Some n" by (rule category_invD)
    then show "getitem (document_count m) c = Inr (doc_count_of m c)"
      by (simp add: getitem_def doc_count_of_def)
  qed
  then have "sum_gen (getitem (document_count m)) (remdups (categories m)) =
      Inr (sum_list (map (doc_count_of m) (remdups (categories m))))"
    by (rule sum_gen_Inr)
  with assms show ?thesis by (simp add: model_inv_def)
qed

subsection \<open>The constructor establishes the invariant\<close>

lemma fold_init_category:
  "categories (fold init_category cs m) = categories m \<and>
   total_document_count (fold init_category cs m) = total_document_count m \<and>
   map_of (word_memo (fold init_category cs m)) c =
     (if c \<in> set cs then Some [] else map_of (word_memo m) c) \<and>
   map_of (document_count (fold init_category cs m)) c =
     (if c \<in> set cs then Some 0 else map_of (document_count m) c) \<and>
   fst ` set (document_count (fold init_category cs m)) = set cs \<union> fst ` set (document_count m)"
proof (induction cs arbitrary: m)
  case Nil
  show ?case by simp
next
  case (Cons a cs)
  show ?case
    using Cons.IH [of "init_category a m"]
    by (auto simp: init_category_def update_conv' dom_update)
qed

lemma init_fields:
  "categories (init cats) = cats"
  "total_document_count (init cats) = 0"
  "map_of (word_memo (init cats)) c = (if c \<in> set cats then Some [] else None)"
  "map_of (document_count (init cats)) c = (if c \<in> set cats then Some 0 else None)"
  "fst ` set (document_count (init cats)) = set cats"
  unfolding init_def
  using fold_init_category [of cats
      "\<lparr>categories = cats, word_memo = [], document_count = [], total_document_count = 0\<rparr>" c]
  by simp_all

lemma model_inv_init: "model_inv (init cats)"
proof (rule model_invI)
  show "fst ` set (document_count (init cats)) \<subseteq> set (categories (init cats))"
    by (simp add: init_fields)
  show "category_inv (init cats) c" if "c \<in> set (categories (init cats))" for c
    using that by (simp add: category_inv_def init_fields)
  have "\<And>c. c \<in> set cats \<Longrightarrow> doc_count_of (init cats) c = 0"
    by (simp add: doc_count_of_def init_fields)
  then have "map (doc_count_of (init cats)) (remdups cats) = map (\<lambda>c. 0) (remdups cats)"
    by simp
  then have "sum_list (map (doc_count_of (init cats)) (remdups cats)) = 0"
    by (simp only: sum_list_0)
  then show "total_document_count (init cats) =
      sum_list (map (doc_count_of (init cats)) (remdups (categories (init cats))))"
    by (simp add: init_fields)
qed

subsection \<open>Training preserves the invariant\<close>

lemma add_word_Some:
  assumes "map_of (word_memo m) c = Some d"
  shows "add_word m w c =
    (m\<lparr>word_memo :=
        AList.update c (AList.update w (case map_of d w of None \<Rightarrow> 1 | Some n \<Rightarrow> n + 1) d)
          (word_memo m)\<rparr>, None)"
  using assms by (simp add: add_word_def getitem_def split: option.splits)

lemma add_words_inv:
  assumes "map_of (word_memo m) c = Some d" "distinct (map fst d)" "distinct ws" "0 \<le> n"
    "\<forall>w k. map_of d w = Some k \<longrightarrow> 1 \<le> k \<and> k \<le> n + 1"
    "\<forall>w k. w \<in> set ws \<longrightarrow> map_of d w = Some k \<longrightarrow> k \<le> n"
  shows "\<exists>m' d'. add_words m ws c = (m', None) \<and> categories m' = categories m \<and>
    document_count m' = document_count m \<and>
    total_document_count m' = total_document_count m \<and>
    (\<forall>c'. c' \<noteq> c \<longrightarrow> map_of (word_memo m') c' = map_of (word_memo m) c') \<and>
    map_of (word_memo m') c = Some d' \<and> distinct (map fst d') \<and>
    (\<forall>w k. map_of d' w = Some k \<longrightarrow> 1 \<le> k \<and> k \<le> n + 1)"
  using assms
proof (induction ws arbitrary: m d)
  case Nil
  then show ?case by auto
next
  case (Cons w ws)
  define v where "v = (case map_of d w of None \<Rightarrow> 1 | Some k \<Rightarrow> k + 1)"
  define d1 where "d1 = AList.update w v d"
  define m1 where "m1 = m\<lparr>word_memo := AList.update c d1 (word_memo m)\<rparr>"
  have step: "add_word m w c = (m1, None)"
    using add_word_Some [OF Cons.prems(1), of w] by (simp add: m1_def d1_def v_def)
  have v: "1 \<le> v \<and> v \<le> n + 1"
  proof (cases "map_of d w")
    case None
    then show ?thesis using Cons.prems(4) by (simp add: v_def)
  next
    case (Some k)
    then have "1 \<le> k" "k \<le> n" using Cons.prems(5) Cons.prems(6) by simp_all
    then show ?thesis using Some by (simp add: v_def)
  qed
  have d1_map: "map_of d1 = (map_of d)(w \<mapsto> v)"
    by (simp add: d1_def update_conv')
  have 1: "map_of (word_memo m1) c = Some d1"
    by (simp add: m1_def update_conv')
  have 2: "distinct (map fst d1)"
    using Cons.prems(2) by (simp add: d1_def distinct_update)
  have 3: "distinct ws" and wn: "w \<notin> set ws" using Cons.prems(3) by simp_all
  have 5: "\<forall>w' k. map_of d1 w' = Some k \<longrightarrow> 1 \<le> k \<and> k \<le> n + 1"
    using Cons.prems(5) v by (auto simp: d1_map split: if_splits)
  have 6: "\<forall>w' k. w' \<in> set ws \<longrightarrow> map_of d1 w' = Some k \<longrightarrow> k \<le> n"
    using Cons.prems(6) wn by (auto simp: d1_map split: if_splits)
  from Cons.IH [OF 1 2 3 Cons.prems(4) 5 6]
  obtain m' d' where r: "add_words m1 ws c = (m', None)" "categories m' = categories m1"
    "document_count m' = document_count m1"
    "total_document_count m' = total_document_count m1"
    "\<forall>c'. c' \<noteq> c \<longrightarrow> map_of (word_memo m') c' = map_of (word_memo m1) c'"
    "map_of (word_memo m') c = Some d'" "distinct (map fst d')"
    "\<forall>w k. map_of d' w = Some k \<longrightarrow> 1 \<le> k \<and> k \<le> n + 1"
    by blast
  have other: "\<forall>c'. c' \<noteq> c \<longrightarrow> map_of (word_memo m') c' = map_of (word_memo m) c'"
    using r(5) by (simp add: m1_def update_conv')
  have run: "add_words m (w # ws) c = (m', None)"
    using step r(1) by simp
  have fields: "categories m' = categories m" "document_count m' = document_count m"
    "total_document_count m' = total_document_count m"
    using r(2,3,4) by (simp_all add: m1_def)
  show ?case
    using run fields other r(6,7,8) by blast
qed

lemma sum_list_upd_other:
  "c \<notin> set xs \<Longrightarrow> sum_list (map (\<lambda>x. if x = c then v x else g x) xs) = sum_list (map g xs)"
  by (induction xs) auto

lemma sum_list_bump:
  "distinct xs \<Longrightarrow> c \<in> set xs \<Longrightarrow>
   sum_list (map (\<lambda>x. if x = c then g x + 1 else g x) xs) = sum_list (map g xs) + (1::int)"
  by (induction xs) (auto simp: sum_list_upd_other)

lemma distinct_tokenize: "distinct (tokenize nl text)"
  by (simp add: tokenize_def)

lemma train_inv:
  assumes inv: "model_inv m" and cat: "category \<in> set (categories m)"
  shows "\<exists>m'. train nl m text category = (m', None) \<and> model_inv m' \<and>
    categories m' = categories m"
proof -
  from inv cat have "category_inv m category" by (simp add: model_inv_def)
  then obtain d n where d: "map_of (word_memo m) category = Some d"
    and n: "map_of (document_count m) category = Some n"
    and n0: "0 \<le> n" and dist: "distinct (map fst d)"
    and le: "\<forall>w k. map_of d w = Some k \<longrightarrow> 1 \<le> k \<and> k \<le> n"
    by (rule category_invD)
  define m2 where "m2 = m\<lparr>document_count := AList.update category (n + 1) (document_count m),
    total_document_count := total_document_count m + 1\<rparr>"
  have tr: "train nl m text category = add_words m2 (tokenize nl text) category"
    using n by (simp add: train_def getitem_def m2_def)
  have d2: "map_of (word_memo m2) category = Some d" using d by (simp add: m2_def)
  have le1: "\<forall>w k. map_of d w = Some k \<longrightarrow> 1 \<le> k \<and> k \<le> n + 1"
    using le by fastforce
  have le2: "\<forall>w k. w \<in> set (tokenize nl text) \<longrightarrow> map_of d w = Some k \<longrightarrow> k \<le> n"
    using le by blast
  from add_words_inv [OF d2 dist distinct_tokenize n0 le1 le2]
  obtain m' d' where r: "add_words m2 (tokenize nl text) category = (m', None)"
    "categories m' = categories m2" "document_count m' = document_count m2"
    "total_document_count m' = total_document_count m2"
    "\<forall>c'. c' \<noteq> category \<longrightarrow> map_of (word_memo m') c' = map_of (word_memo m2) c'"
    "map_of (word_memo m') category = Some d'" "distinct (map fst d')"
    "\<forall>w k. map_of d' w = Some k \<longrightarrow> 1 \<le> k \<and> k \<le> n + 1"
    by blast
  have cats: "categories m' = categories m" using r(2) by (simp add: m2_def)
  have dc: "document_count m' = AList.update category (n + 1) (document_count m)"
    using r(3) by (simp add: m2_def)
  have dcm: "map_of (document_count m') = (map_of (document_count m))(category \<mapsto> n + 1)"
    by (simp add: dc update_conv')
  have tot: "total_document_count m' = total_document_count m + 1"
    using r(4) by (simp add: m2_def)
  have "model_inv m'"
  proof (rule model_invI)
    show "fst ` set (document_count m') \<subseteq> set (categories m')"
      using inv cat by (auto simp: dc dom_update cats model_inv_def)
    show "category_inv m' c" if "c \<in> set (categories m')" for c
    proof (cases "c = category")
      case True
      show ?thesis
      proof (rule category_invI)
        show "map_of (word_memo m') c = Some d'" using r(6) True by simp
        show "map_of (document_count m') c = Some (n + 1)" using True by (simp add: dcm)
        show "0 \<le> n + 1" using n0 by simp
        show "distinct (map fst d')" by (rule r(7))
        show "\<And>w k. map_of d' w = Some k \<Longrightarrow> 1 \<le> k \<and> k \<le> n + 1" using r(8) by blast
      qed
    next
      case False
      from that inv have "category_inv m c" by (simp add: cats model_inv_def)
      then obtain dc' nc where o: "map_of (word_memo m) c = Some dc'"
        "map_of (document_count m) c = Some nc" "0 \<le> nc" "distinct (map fst dc')"
        "\<forall>w k. map_of dc' w = Some k \<longrightarrow> 1 \<le> k \<and> k \<le> nc"
        by (rule category_invD)
      show ?thesis
      proof (rule category_invI)
        show "map_of (word_memo m') c = Some dc'"
          using r(5) False o(1) by (simp add: m2_def)
        show "map_of (document_count m') c = Some nc" using False o(2) by (simp add: dcm)
        show "0 \<le> nc" by (rule o(3))
        show "distinct (map fst dc')" by (rule o(4))
        show "\<And>w k. map_of dc' w = Some k \<Longrightarrow> 1 \<le> k \<and> k \<le> nc" using o(5) by blast
      qed
    qed
    have fn: "doc_count_of m' =
        (\<lambda>x. if x = category then doc_count_of m x + 1 else doc_count_of m x)"
      using n by (auto simp: doc_count_of_def dcm fun_eq_iff)
    have "sum_list (map (doc_count_of m') (remdups (categories m))) =
        sum_list (map (doc_count_of m) (remdups (categories m))) + 1"
      unfolding fn using cat by (intro sum_list_bump) simp_all
    then show "total_document_count m' =
        sum_list (map (doc_count_of m') (remdups (categories m')))"
      using model_inv_total [OF inv] by (simp add: tot cats)
  qed
  with tr r(1) cats show ?thesis by simp
qed

lemma train_preserves:
  assumes "model_inv m"
  shows "model_inv (fst (train nl m text category)) \<and>
    categories (fst (train nl m text category)) = categories m"
proof (cases "category \<in> set (categories m)")
  case True
  from train_inv [OF assms True, of nl "text"] show ?thesis by auto
next
  case False
  then show ?thesis using assms by (simp add: train_outside)
qed

lemma train_all_inv:
  assumes "model_inv m" "\<forall>(text, category) \<in> set calls. category \<in> set (categories m)"
  shows "\<exists>m'. train_all nl m calls = (m', None) \<and> model_inv m' \<and> categories m' = categories m"
  using assms
proof (induction calls arbitrary: m)
  case Nil
  then show ?case by simp
next
  case (Cons call calls)
  obtain tx category where call: "call = (tx, category)" by (cases call)
  then have "category \<in> set (categories m)" using Cons.prems(2) by simp
  from train_inv [OF Cons.prems(1) this, of nl tx]
  obtain m1 where m1: "train nl m tx category = (m1, None)" "model_inv m1"
    "categories m1 = categories m" by blast
  have "\<forall>(text, category) \<in> set calls. category \<in> set (categories m1)"
    using Cons.prems(2) m1(3) by simp
  from Cons.IH [OF m1(2) this]
  obtain m' where "train_all nl m1 calls = (m', None)" "model_inv m'"
    "categories m' = categories m1" by blast
  then show ?case using call m1 by simp
qed

text \<open>
  Claim C7. Starting from a freshly constructed model, every train call of a sequence
  whose categories are configured returns, and afterwards total_document_count is the sum
  of the document counts of the configured categories, each category counted once; when
  the configured list has no duplicates this is the very sum
  \<^verbatim>\<open>sum(self.document_count[cat] for cat in self.categories)\<close> that category_probability
  divides by.
\<close>

theorem total_is_sum_of_document_counts:
  assumes "\<forall>(text, category) \<in> set calls. category \<in> set cats"
  shows "\<exists>m'. train_all nl (init cats) calls = (m', None) \<and> categories m' = cats \<and>
    sum_gen (getitem (document_count m')) (remdups cats) = Inr (total_document_count m') \<and>
    (distinct cats \<longrightarrow>
       sum_gen (getitem (document_count m')) cats = Inr (total_document_count m'))"
proof -
  have "\<forall>(text, category) \<in> set calls. category \<in> set (categories (init cats))"
    using assms by (simp add: init_fields)
  from train_all_inv [OF model_inv_init this]
  obtain m' where m': "train_all nl (init cats) calls = (m', None)" "model_inv m'"
    "categories m' = categories (init cats)" by blast
  then have c: "categories m' = cats" by (simp add: init_fields)
  have s: "sum_gen (getitem (document_count m')) (remdups cats) = Inr (total_document_count m')"
    using m'(2) c by (simp add: model_inv_def)
  have "sum_gen (getitem (document_count m')) cats = Inr (total_document_count m')"
    if "distinct cats"
    using s distinct_remdups_id [OF that] by simp
  with m'(1) c s show ?thesis by blast
qed

theorem total_is_sum_of_document_counts_witness:
  "train_all toy_nltk (init [''spam'', ''ham'']) [(''hello'', ''spam''), (''hello you'', ''ham'')] =
     (shared_model, None) \<and>
   sum_gen (getitem (document_count shared_model)) [''spam'', ''ham''] =
     Inr (total_document_count shared_model)"
  using total_is_sum_of_document_counts [of "[(''hello'', ''spam''), (''hello you'', ''ham'')]"
      "[''spam'', ''ham'']" toy_nltk]
  by (simp add: shared_model_def init_def init_category_def train_def getitem_def tokenize_def
      toy_nltk_def add_word_def)

subsection \<open>Removal and cleanup preserve the invariant\<close>

lemma model_inv_shrink:
  assumes inv: "model_inv m" and d: "map_of (word_memo m) c = Some d"
    and dist: "distinct (map fst d) \<longrightarrow> distinct (map fst d')"
    and sub: "\<forall>w k. map_of d' w = Some k \<longrightarrow> map_of d w = Some k"
  shows "model_inv (m\<lparr>word_memo := AList.update c d' (word_memo m)\<rparr>)"
proof (rule model_invI)
  let ?m = "m\<lparr>word_memo := AList.update c d' (word_memo m)\<rparr>"
  show "fst ` set (document_count ?m) \<subseteq> set (categories ?m)"
    using inv by (simp add: model_inv_def)
  show "category_inv ?m x" if "x \<in> set (categories ?m)" for x
  proof -
    from that inv have "category_inv m x" by (simp add: model_inv_def)
    then obtain dx nx where o: "map_of (word_memo m) x = Some dx"
      "map_of (document_count m) x = Some nx" "0 \<le> nx" "distinct (map fst dx)"
      "\<forall>w k. map_of dx w = Some k \<longrightarrow> 1 \<le> k \<and> k \<le> nx"
      by (rule category_invD)
    show ?thesis
    proof (cases "x = c")
      case True
      then have dx: "dx = d" using o(1) d by simp
      show ?thesis
      proof (rule category_invI)
        show "map_of (word_memo ?m) x = Some d'" using True by (simp add: update_conv')
        show "map_of (document_count ?m) x = Some nx" using o(2) by simp
        show "0 \<le> nx" by (rule o(3))
        show "distinct (map fst d')" using dist o(4) dx by simp
        show "\<And>w k. map_of d' w = Some k \<Longrightarrow> 1 \<le> k \<and> k \<le> nx"
          using sub o(5) dx by blast
      qed
    next
      case False
      show ?thesis
      proof (rule category_invI)
        show "map_of (word_memo ?m) x = Some dx" using False o(1) by (simp add: update_conv')
        show "map_of (document_count ?m) x = Some nx" using o(2) by simp
        show "0 \<le> nx" by (rule o(3))
        show "distinct (map fst dx)" by (rule o(4))
        show "\<And>w k. map_of dx w = Some k \<Longrightarrow> 1 \<le> k \<and> k \<le> nx" using o(5) by blast
      qed
    qed
  qed
  have "doc_count_of ?m = doc_count_of m" by (simp add: doc_count_of_def fun_eq_iff)
  then show "total_document_count ?m = sum_list (map (doc_count_of ?m) (remdups (categories ?m)))"
    using model_inv_total [OF inv] by simp
qed

lemma pop_word_preserves:
  assumes "model_inv m"
  shows "model_inv (fst (pop_word m w c))"
proof (cases "map_of (word_memo m) c")
  case None
  then show ?thesis using assms by (simp add: pop_word_def getitem_def)
next
  case (Some d)
  have "model_inv (m\<lparr>word_memo := AList.update c (AList.delete w d) (word_memo m)\<rparr>)"
    using assms Some
  proof (rule model_inv_shrink)
    show "distinct (map fst d) \<longrightarrow> distinct (map fst (AList.delete w d))"
      by (simp add: distinct_delete)
    show "\<forall>w' k. map_of (AList.delete w d) w' = Some k \<longrightarrow> map_of d w' = Some k"
      by (auto simp: delete_conv' split: if_splits)
  qed
  then show ?thesis using Some by (simp add: pop_word_def getitem_def)
qed

lemma remove_word_all_preserves:
  "model_inv m \<Longrightarrow> model_inv (fst (remove_word_all m w cs))"
proof (induction cs arbitrary: m)
  case Nil
  then show ?case by simp
next
  case (Cons c cs)
  obtain m' r where p: "pop_word m w c = (m', r)" by (cases "pop_word m w c")
  have inv': "model_inv m'" using pop_word_preserves [OF Cons.prems, of w c] p by simp
  show ?case
  proof (cases r)
    case None
    then show ?thesis using p Cons.IH [OF inv'] by simp
  next
    case (Some e)
    then show ?thesis using p inv' by simp
  qed
qed

lemma remove_word_preserves:
  "model_inv m \<Longrightarrow> model_inv (fst (remove_word m w copt))"
  by (cases copt) (simp_all add: remove_word_all_preserves pop_word_preserves)

lemma cleanup_remove_preserves:
  "model_inv m \<Longrightarrow> model_inv (fst (cleanup_remove m ws k))"
proof (induction ws arbitrary: m k)
  case Nil
  then show ?case by simp
next
  case (Cons w ws)
  obtain m' r where p: "remove_word m w None = (m', r)" by (cases "remove_word m w None")
  have inv': "model_inv m'" using remove_word_preserves [OF Cons.prems, of w None] p by simp
  show ?case
  proof (cases r)
    case None
    then show ?thesis using p Cons.IH [OF inv', of "k + 1"] by simp
  next
    case (Some e)
    then show ?thesis using p inv' by simp
  qed
qed

lemma cleanup_loop_preserves:
  "model_inv m \<Longrightarrow> model_inv (fst (cleanup_loop m thr cs k))"
proof (induction cs arbitrary: m k)
  case Nil
  then show ?case by simp
next
  case (Cons c cs)
  show ?case
  proof (cases "getitem (word_memo m) c")
    case (Inl e)
    then show ?thesis using Cons.prems by simp
  next
    case d: (Inr d)
    show ?thesis
    proof (cases "cleanup_scan m thr (map fst d) []")
      case (Inl e)
      then show ?thesis using d Cons.prems by simp
    next
      case scan: (Inr ws)
      obtain m' r where p: "cleanup_remove m ws k = (m', r)" by (cases "cleanup_remove m ws k")
      have inv': "model_inv m'" using cleanup_remove_preserves [OF Cons.prems, of ws k] p by simp
      show ?thesis
      proof (cases r)
        case (Inl e)
        then show ?thesis using d scan p inv' by simp
      next
        case (Inr k')
        then show ?thesis using d scan p Cons.IH [OF inv', of k'] by simp
      qed
    qed
  qed
qed

lemma cleanup_preserves: "model_inv m \<Longrightarrow> model_inv (fst (cleanup m thr))"
  by (simp add: cleanup_def cleanup_loop_preserves)

lemma perform_preserves:
  assumes "model_inv m"
  shows "model_inv (perform nl m call) \<and> categories (perform nl m call) = categories m"
proof (cases call)
  case (Train tx category)
  then show ?thesis using train_preserves [OF assms, of nl tx category] by simp
next
  case (RemoveWord w copt)
  then show ?thesis
    using remove_word_preserves [OF assms, of w copt] remove_word_frame [of m w copt] by simp
next
  case (Cleanup thr)
  then show ?thesis
    using cleanup_preserves [OF assms, of thr] cleanup_loop_frame [of m thr "categories m" 0]
    by (simp add: cleanup_def)
qed

lemma run_preserves:
  "model_inv m \<Longrightarrow> model_inv (run nl m calls) \<and> categories (run nl m calls) = categories m"
proof (induction calls arbitrary: m)
  case Nil
  then show ?case by (simp add: run_def)
next
  case (Cons call calls)
  have p: "model_inv (perform nl m call)" "categories (perform nl m call) = categories m"
    using perform_preserves [OF Cons.prems, of nl call] by simp_all
  have "run nl m (call # calls) = run nl (perform nl m call) calls"
    by (simp add: run_def)
  then show ?case using Cons.IH [OF p(1)] p(2) by simp
qed

lemma model_inv_word_count:
  assumes "model_inv m" "c \<in> set (categories m)"
  shows "\<exists>k n. word_count m t c = Inr k \<and> getitem (document_count m) c = Inr n \<and>
    0 \<le> k \<and> k \<le> n"
proof -
  from assms have "category_inv m c" by (simp add: model_inv_def)
  then obtain d n where o: "map_of (word_memo m) c = Some d"
    "map_of (document_count m) c = Some n" "0 \<le> n" "distinct (map fst d)"
    "\<forall>w k. map_of d w = Some k \<longrightarrow> 1 \<le> k \<and> k \<le> n"
    by (rule category_invD)
  show ?thesis
  proof (cases "map_of d t")
    case None
    then show ?thesis using o by (simp add: word_count_def getitem_def)
  next
    case (Some k)
    then have "1 \<le> k \<and> k \<le> n" using o(5) by blast
    then show ?thesis using o(1,2) Some by (simp add: word_count_def getitem_def)
  qed
qed

text \<open>
  Claim C8. Starting from a freshly constructed model, after any sequence of train,
  remove_word and cleanup calls (returning or raising), for every configured category
  and every token the word count is at most the document count of the category.
\<close>

theorem word_count_le_document_count:
  assumes "c \<in> set cats"
  shows "\<exists>k n. word_count (run nl (init cats) calls) t c = Inr k \<and>
    getitem (document_count (run nl (init cats) calls)) c = Inr n \<and> k \<le> n"
proof -
  have r: "model_inv (run nl (init cats) calls)"
    "categories (run nl (init cats) calls) = categories (init cats)"
    using run_preserves [OF model_inv_init, of nl cats calls] by simp_all
  then have "c \<in> set (categories (run nl (init cats) calls))"
    using assms by (simp add: init_fields)
  from model_inv_word_count [OF r(1) this, of t] show ?thesis by blast
qed

theorem word_count_le_document_count_witness:
  "word_count (run toy_nltk (init [''spam'', ''ham''])
      [Train ''hello hello you'' ''ham'', Train ''hello'' ''spam'', Cleanup (2 / 3),
       Train ''you'' ''ham'', RemoveWord ''hello'' (Some ''spam'')]) ''you'' ''ham'' = Inr 2 \<and>
   getitem (document_count (run toy_nltk (init [''spam'', ''ham''])
      [Train ''hello hello you'' ''ham'', Train ''hello'' ''spam'', Cleanup (2 / 3),
       Train ''you'' ''ham'', RemoveWord ''hello'' (Some ''spam'')])) ''ham'' = Inr 2"
  using word_count_le_document_count [of "''ham''" "[''spam'', ''ham'']" toy_nltk
      "[Train ''hello hello you'' ''ham'', Train ''hello'' ''spam'', Cleanup (2 / 3),
         Train ''you'' ''ham'', RemoveWord ''hello'' (Some ''spam'')]" "''you''"]
  by (simp add: run_def init_def init_category_def train_def add_word_def
      tokenize_def toy_nltk_def cleanup_def pop_word_def word_probability_def
      word_count_def getitem_def truediv_def)

subsection \<open>The probability engine in a well-formed state\<close>

lemma model_inv_word_count_of:
  assumes "model_inv m" "c \<in> set (categories m)"
  shows "word_count m w c = Inr (word_count_of m w c)"
    "0 \<le> word_count_of m w c" "word_count_of m w c \<le> doc_count_of m c"
proof -
  from assms have "category_inv m c" by (simp add: model_inv_def)
  then obtain d n where o: "map_of (word_memo m) c = Some d"
    "map_of (document_count m) c = Some n" "0 \<le> n" "distinct (map fst d)"
    "\<forall>w k. map_of d w = Some k \<longrightarrow> 1 \<le> k \<and> k \<le> n"
    by (rule category_invD)
  show "word_count m w c = Inr (word_count_of m w c)"
    using o(1) by (simp add: word_count_def word_count_of_def getitem_def split: option.splits)
  show "0 \<le> word_count_of m w c"
  proof (cases "map_of d w")
    case None
    then show ?thesis using o(1) by (simp add: word_count_of_def)
  next
    case (Some k)
    then have "1 \<le> k" using o(5) by blast
    then show ?thesis using o(1) Some by (simp add: word_count_of_def)
  qed
  show "word_count_of m w c \<le> doc_count_of m c"
  proof (cases "map_of d w")
    case None
    then show ?thesis using o(1,2,3) by (simp add: word_count_of_def doc_count_of_def)
  next
    case (Some k)
    then have "k \<le> n" using o(5) by blast
    then show ?thesis using o(1,2) Some by (simp add: word_count_of_def doc_count_of_def)
  qed
qed

lemma word_probability_eval:
  assumes "model_inv m"
  shows "word_probability m w =
    truediv (sum_list (map (word_count_of m w) (categories m))) (total_document_count m)"
proof -
  have "sum_gen (word_count m w) (categories m) =
      Inr (sum_list (map (word_count_of m w) (categories m)))"
    by (rule sum_gen_Inr) (rule model_inv_word_count_of(1) [OF assms])
  then show ?thesis by (simp add: word_probability_def)
qed

lemma category_probability_eval:
  assumes "model_inv m" "c \<in> set (categories m)"
  shows "category_probability m c =
    truediv (doc_count_of m c) (sum_list (map (doc_count_of m) (categories m)))"
proof -
  have "sum_gen (getitem (document_count m)) (categories m) =
      Inr (sum_list (map (doc_count_of m) (categories m)))"
    by (rule sum_gen_Inr) (rule model_inv_doc_count(1) [OF assms(1)])
  then show ?thesis
    using model_inv_doc_count(1) [OF assms] by (simp add: category_probability_def)
qed

lemma word_probability_category_eval:
  assumes "model_inv m" "c \<in> set (categories m)"
  shows "word_probability_category m w c =
    Inr (if doc_count_of m c > 0
         then of_int (word_count_of m w c) / of_int (doc_count_of m c) else 0)"
  using model_inv_doc_count(1) [OF assms] model_inv_word_count_of(1) [OF assms, of w]
  by (simp add: word_probability_category_def truediv_def)

lemma sum_list_remdups_le:
  "(\<And>x. x \<in> set xs \<Longrightarrow> 0 \<le> g x) \<Longrightarrow>
   sum_list (map g (remdups xs)) \<le> (sum_list (map g xs) :: int)"
proof (induction xs)
  case Nil
  show ?case by simp
next
  case (Cons x xs)
  have "sum_list (map g (remdups xs)) \<le> sum_list (map g xs)"
    using Cons by simp
  moreover have "0 \<le> g x" using Cons.prems by simp
  ultimately show ?case by simp
qed

lemma model_inv_list_sum:
  assumes "model_inv m"
  shows "total_document_count m \<le> sum_list (map (doc_count_of m) (categories m))"
    "total_document_count m = 0 \<Longrightarrow> sum_list (map (doc_count_of m) (categories m)) = 0"
proof -
  have nn: "\<And>c. c \<in> set (categories m) \<Longrightarrow> 0 \<le> doc_count_of m c"
    by (rule model_inv_doc_count(2) [OF assms])
  show "total_document_count m \<le> sum_list (map (doc_count_of m) (categories m))"
    using sum_list_remdups_le [of "categories m" "doc_count_of m"] nn model_inv_total [OF assms]
    by simp
  assume "total_document_count m = 0"
  then have z: "sum_list (map (doc_count_of m) (remdups (categories m))) = 0"
    using model_inv_total [OF assms] by simp
  have "\<forall>x \<in> set (map (doc_count_of m) (remdups (categories m))). x = 0"
    using z nn sum_list_nonneg_eq_0_iff [of "map (doc_count_of m) (remdups (categories m))"]
    by auto
  then have "\<And>c. c \<in> set (categories m) \<Longrightarrow> doc_count_of m c = 0" by simp
  then have "map (doc_count_of m) (categories m) = map (\<lambda>c. 0) (categories m)" by simp
  then show "sum_list (map (doc_count_of m) (categories m)) = 0"
    by (simp only: sum_list_0)
qed

subsection \<open>Classifying before any training\<close>

lemma untrained_errors:
  assumes "model_inv m" "total_document_count m = 0"
  shows "word_probability m w = Inl ZeroDivisionError"
    "c \<in> set (categories m) \<Longrightarrow> category_probability m c = Inl ZeroDivisionError"
    "c \<in> set (categories m) \<Longrightarrow> text_likelihood m bag c = Inl ZeroDivisionError"
proof -
  show wp: "word_probability m w = Inl ZeroDivisionError" for w
    using assms by (simp add: word_probability_eval truediv_def)
  show cp: "category_probability m c = Inl ZeroDivisionError" if "c \<in> set (categories m)"
    using assms that model_inv_list_sum(2) [OF assms]
    by (simp add: category_probability_eval truediv_def)
  show "text_likelihood m bag c = Inl ZeroDivisionError" if "c \<in> set (categories m)"
  proof (cases bag)
    case Nil
    then show ?thesis using cp [OF that] by (simp add: text_likelihood_def)
  next
    case (Cons t ts)
    then show ?thesis using wp [of t] by (simp add: text_likelihood_def)
  qed
qed

text \<open>
  Claim C3. In a well-formed state with total_document_count = 0, classify raises
  ZeroDivisionError for every text when at least one category is configured (with no
  category it raises IndexError: it never returns a default), and so do
  category_probability, for every configured category, and word_probability, for
  every word.
\<close>

theorem classify_untrained_raises:
  assumes "model_inv m" "total_document_count m = 0"
  shows "classify nl m text =
      Inl (if categories m = [] then IndexError else ZeroDivisionError) \<and>
    (\<forall>c \<in> set (categories m). category_probability m c = Inl ZeroDivisionError) \<and>
    (\<forall>w. word_probability m w = Inl ZeroDivisionError)"
proof -
  have "classify nl m text = Inl (if categories m = [] then IndexError else ZeroDivisionError)"
  proof (cases "categories m")
    case Nil
    then show ?thesis by (simp add: classify_def)
  next
    case (Cons first rest)
    then have "first \<in> set (categories m)" by simp
    then have "text_likelihood m (tokenize nl text) first = Inl ZeroDivisionError"
      by (rule untrained_errors(3) [OF assms])
    then show ?thesis using Cons by (simp add: classify_def)
  qed
  then show ?thesis using untrained_errors(1,2) [OF assms] by simp
qed

theorem classify_untrained_raises_witness:
  "classify toy_nltk (init [''spam'', ''ham'']) ''free money'' = Inl ZeroDivisionError \<and>
   category_probability (init [''spam'', ''ham'']) ''spam'' = Inl ZeroDivisionError \<and>
   word_probability (init [''spam'', ''ham'']) ''free'' = Inl ZeroDivisionError"
proof -
  have inv: "model_inv (init [''spam'', ''ham''])" by (rule model_inv_init)
  have z: "total_document_count (init [''spam'', ''ham'']) = 0" by (simp add: init_fields)
  show ?thesis
    using classify_untrained_raises [OF inv z, of toy_nltk "''free money''"]
    by (simp add: init_fields)
qed

subsection \<open>The likelihood score\<close>

lemma text_likelihood_loop_prod:
  assumes "\<forall>t \<in> set ws. word_probability m t = Inr (mp t) \<and>
    word_probability_category m t c = Inr (wl t)"
  shows "text_likelihood_loop m ws c s =
    Inr (s * prod_list (map (\<lambda>t. wl t / mp t) (filter (\<lambda>t. mp t > 0 \<and> wl t > 0) ws)))"
  using assms
proof (induction ws arbitrary: s)
  case Nil
  show ?case by simp
next
  case (Cons t ts)
  have t: "word_probability m t = Inr (mp t)" "word_probability_category m t c = Inr (wl t)"
    using Cons.prems by simp_all
  have rest: "\<forall>t \<in> set ts. word_probability m t = Inr (mp t) \<and>
    word_probability_category m t c = Inr (wl t)"
    using Cons.prems by simp
  show ?case
  proof (cases "mp t > 0 \<and> wl t > 0")
    case True
    then show ?thesis using t Cons.IH [OF rest, of "s * (wl t / mp t)"]
      by (simp add: mult.assoc)
  next
    case False
    then show ?thesis using t Cons.IH [OF rest, of s] by auto
  qed
qed

lemma trained_probabilities:
  assumes "model_inv m" "total_document_count m > 0"
  shows "word_probability m t =
      Inr (of_int (sum_list (map (word_count_of m t) (categories m))) /
           of_int (total_document_count m))"
    "c \<in> set (categories m) \<Longrightarrow> category_probability m c =
      Inr (of_int (doc_count_of m c) /
           of_int (sum_list (map (doc_count_of m) (categories m))))"
    "sum_list (map (doc_count_of m) (categories m)) > 0"
proof -
  show "word_probability m t =
      Inr (of_int (sum_list (map (word_count_of m t) (categories m))) /
           of_int (total_document_count m))"
    using assms by (simp add: word_probability_eval truediv_def)
  show pos: "sum_list (map (doc_count_of m) (categories m)) > 0"
    using model_inv_list_sum(1) [OF assms(1)] assms(2) by simp
  show "category_probability m c =
      Inr (of_int (doc_count_of m c) /
           of_int (sum_list (map (doc_count_of m) (categories m))))"
    if "c \<in> set (categories m)"
    using assms(1) that pos by (simp add: category_probability_eval truediv_def)
qed


lemma model_inv_shared_model: "model_inv shared_model"
  by (simp add: model_inv_def category_inv_def shared_model_def getitem_def)


subsection \<open>The winner of classify\<close>

lemma first_best_later:
  "first_best score cs winner \<Longrightarrow> score c < score winner \<Longrightarrow> first_best score (c # cs) winner"
  by auto

lemma first_best_head:
  "\<not> (\<exists>x \<in> set cs. score x > score c) \<Longrightarrow> first_best score (c # cs) c"
  by (simp add: list_all_iff not_less)

lemma first_best_max:
  "first_best score cs winner \<Longrightarrow> winner \<in> set cs \<and> (\<forall>c \<in> set cs. score c \<le> score winner)"
  by (induction cs) (auto simp: list_all_iff split: if_splits)

lemma classify_loop_spec:
  assumes "\<forall>c \<in> set cs. text_likelihood m bag c = Inr (score c)"
  shows "\<exists>winner best. classify_loop m bag cs w0 b0 = Inr (winner, best) \<and>
    (if \<exists>c \<in> set cs. score c > b0
     then best = score winner \<and> best > b0 \<and> first_best score cs winner
     else winner = w0 \<and> best = b0)"
  using assms
proof (induction cs arbitrary: w0 b0)
  case Nil
  show ?case by simp
next
  case (Cons c cs)
  have c: "text_likelihood m bag c = Inr (score c)" using Cons.prems by simp
  have rest: "\<forall>c \<in> set cs. text_likelihood m bag c = Inr (score c)" using Cons.prems by simp
  show ?case
  proof (cases "score c > b0")
    case True
    from Cons.IH [OF rest, of c "score c"]
    obtain winner best where r: "classify_loop m bag cs c (score c) = Inr (winner, best)"
      and r2: "if \<exists>x \<in> set cs. score x > score c
       then best = score winner \<and> best > score c \<and> first_best score cs winner
       else winner = c \<and> best = score c"
      by blast
    have run: "classify_loop m bag (c # cs) w0 b0 = Inr (winner, best)"
      using c True r by simp
    have ex: "\<exists>x \<in> set (c # cs). score x > b0" using True by simp
    have g: "best = score winner \<and> best > b0 \<and> first_best score (c # cs) winner"
    proof (cases "\<exists>x \<in> set cs. score x > score c")
      case later: True
      with r2 have p: "best = score winner" "best > score c" "first_best score cs winner"
        by simp_all
      have "best > b0" using p(2) True by simp
      moreover have "first_best score (c # cs) winner"
        using p(3) p(2) p(1) by (intro first_best_later) simp_all
      ultimately show ?thesis using p(1) by simp
    next
      case False
      with r2 have wb: "winner = c" "best = score c" by simp_all
      have "first_best score (c # cs) c" using False by (rule first_best_head)
      then show ?thesis using wb True by simp
    qed
    have "classify_loop m bag (c # cs) w0 b0 = Inr (winner, best) \<and>
      (if \<exists>x \<in> set (c # cs). score x > b0
       then best = score winner \<and> best > b0 \<and> first_best score (c # cs) winner
       else winner = w0 \<and> best = b0)"
      using run ex g by simp
    then show ?thesis by blast
  next
    case False
    from Cons.IH [OF rest, of w0 b0]
    obtain winner best where r: "classify_loop m bag cs w0 b0 = Inr (winner, best)"
      and r2: "if \<exists>x \<in> set cs. score x > b0
       then best = score winner \<and> best > b0 \<and> first_best score cs winner
       else winner = w0 \<and> best = b0"
      by blast
    have run: "classify_loop m bag (c # cs) w0 b0 = Inr (winner, best)"
      using c False r by simp
    have cond: "if \<exists>x \<in> set (c # cs). score x > b0
       then best = score winner \<and> best > b0 \<and> first_best score (c # cs) winner
       else winner = w0 \<and> best = b0"
    proof (cases "\<exists>x \<in> set cs. score x > b0")
      case later: True
      with r2 have p: "best = score winner" "best > b0" "first_best score cs winner"
        by simp_all
      have "score c < score winner" using p(1,2) False by simp
      with p(3) have "first_best score (c # cs) winner" by (rule first_best_later)
      with p(1,2) later show ?thesis by simp
    next
      case none: False
      with r2 have "winner = w0" "best = b0" by simp_all
      with none False show ?thesis by simp
    qed
    from run cond have "classify_loop m bag (c # cs) w0 b0 = Inr (winner, best) \<and>
      (if \<exists>x \<in> set (c # cs). score x > b0
       then best = score winner \<and> best > b0 \<and> first_best score (c # cs) winner
       else winner = w0 \<and> best = b0)"
      by (rule conjI)
    then show ?thesis by blast
  qed
qed


text \<open>
  In a well-formed state with at least one training document and one category, every
  likelihood is computed and classify returns.
\<close>

lemma text_likelihood_returns:
  assumes "model_inv m" "total_document_count m > 0" "c \<in> set (categories m)"
  shows "\<exists>s. text_likelihood m bag c = Inr s"
proof -
  define P where "P = (\<lambda>t. of_int (sum_list (map (word_count_of m t) (categories m))) /
    (of_int (total_document_count m) :: rat))"
  define L where "L = (\<lambda>t. if doc_count_of m c > 0
    then of_int (word_count_of m t c) / (of_int (doc_count_of m c) :: rat) else 0)"
  have P: "\<forall>t. word_probability m t = Inr (P t)"
    using trained_probabilities(1) [OF assms(1,2)] by (simp add: P_def)
  have L: "\<forall>t. word_probability_category m t c = Inr (L t)"
    using word_probability_category_eval [OF assms(1,3)] by (simp add: L_def)
  have "\<exists>s. text_likelihood_loop m bag c 1 = Inr s"
    using text_likelihood_loop_prod [of bag m P c L 1] P L by simp
  moreover have "\<exists>p. category_probability m c = Inr p"
    using trained_probabilities(2) [OF assms] by blast
  ultimately show ?thesis by (auto simp: text_likelihood_def)
qed

lemma classify_returns:
  assumes "model_inv m" "total_document_count m > 0" "categories m \<noteq> []"
  shows "\<exists>winner best. classify nl m text = Inr (winner, best)"
proof -
  obtain first rest where cs: "categories m = first # rest"
    using assms(3) by (cases "categories m") simp_all
  have "\<forall>c \<in> set (categories m). \<exists>s. text_likelihood m (tokenize nl text) c = Inr s"
    using text_likelihood_returns [OF assms(1,2)] by blast
  then obtain score where
    "\<forall>c \<in> set (categories m). text_likelihood m (tokenize nl text) c = Inr (score c)"
    by metis
  from classify_loop_spec [OF this, of first 0]
  obtain winner best where
    "classify_loop m (tokenize nl text) (categories m) first 0 = Inr (winner, best)"
    by blast
  then show ?thesis using cs by (simp add: classify_def)
qed





text \<open>Scenario A of the specification: \<^verbatim>\<open>classify("free money")\<close> selects spam.\<close>

lemma scenario_a: "classify toy_nltk scenario_model ''free money'' = Inr (''spam'', 2)"
  by (simp add: scenario_model_def classify_def tokenize_def toy_nltk_def text_likelihood_def
      category_probability_def word_probability_def word_probability_category_def
      word_count_def getitem_def truediv_def)

subsection \<open>What cleanup removes\<close>

lemma delete_as_filter: "AList.delete w d = filter (\<lambda>p. fst p \<noteq> w) d"
  by (induction d) auto

lemma pop_word_Some:
  "map_of (word_memo m) c = Some d \<Longrightarrow>
   pop_word m w c = (m\<lparr>word_memo := AList.update c (AList.delete w d) (word_memo m)\<rparr>, None)"
  by (simp add: pop_word_def getitem_def)

lemma remove_word_all_eval:
  assumes "\<forall>c \<in> set cs. map_of (word_memo m) c \<noteq> None"
  shows "\<exists>m'. remove_word_all m w cs = (m', None) \<and> categories m' = categories m \<and>
    document_count m' = document_count m \<and>
    total_document_count m' = total_document_count m \<and>
    (\<forall>c. map_of (word_memo m') c =
       (if c \<in> set cs then map_option (AList.delete w) (map_of (word_memo m) c)
        else map_of (word_memo m) c))"
  using assms
proof (induction cs arbitrary: m)
  case Nil
  show ?case by simp
next
  case (Cons c cs)
  from Cons.prems obtain d where d: "map_of (word_memo m) c = Some d" by auto
  define m1 where "m1 = m\<lparr>word_memo := AList.update c (AList.delete w d) (word_memo m)\<rparr>"
  have step: "pop_word m w c = (m1, None)"
    using pop_word_Some [OF d] by (simp add: m1_def)
  have wm1: "map_of (word_memo m1) = (map_of (word_memo m))(c \<mapsto> AList.delete w d)"
    by (simp add: m1_def update_conv')
  have keys: "\<forall>x \<in> set cs. map_of (word_memo m1) x \<noteq> None"
    using Cons.prems by (simp add: wm1)
  from Cons.IH [OF keys]
  obtain m' where r: "remove_word_all m1 w cs = (m', None)" "categories m' = categories m1"
    "document_count m' = document_count m1"
    "total_document_count m' = total_document_count m1"
    "\<forall>x. map_of (word_memo m') x =
       (if x \<in> set cs then map_option (AList.delete w) (map_of (word_memo m1) x)
        else map_of (word_memo m1) x)"
    by blast
  have run: "remove_word_all m w (c # cs) = (m', None)" using step r(1) by simp
  have fields: "categories m' = categories m" "document_count m' = document_count m"
    "total_document_count m' = total_document_count m"
    using r(2,3,4) by (simp_all add: m1_def)
  have memo: "\<forall>x. map_of (word_memo m') x =
       (if x \<in> set (c # cs) then map_option (AList.delete w) (map_of (word_memo m) x)
        else map_of (word_memo m) x)"
  proof
    fix x
    show "map_of (word_memo m') x =
       (if x \<in> set (c # cs) then map_option (AList.delete w) (map_of (word_memo m) x)
        else map_of (word_memo m) x)"
    proof (cases "x = c")
      case True
      then show ?thesis using r(5) d by (simp add: wm1 delete_idem)
    next
      case False
      then show ?thesis using r(5) by (simp add: wm1)
    qed
  qed
  from run fields memo show ?case by blast
qed

lemma cleanup_remove_eval:
  assumes "\<forall>c \<in> set (categories m). map_of (word_memo m) c \<noteq> None"
  shows "\<exists>m'. cleanup_remove m ws k = (m', Inr (k + int (length ws))) \<and>
    categories m' = categories m \<and> document_count m' = document_count m \<and>
    total_document_count m' = total_document_count m \<and>
    (\<forall>c. map_of (word_memo m') c =
       (if c \<in> set (categories m)
        then map_option (filter (\<lambda>p. fst p \<notin> set ws)) (map_of (word_memo m) c)
        else map_of (word_memo m) c))"
  using assms
proof (induction ws arbitrary: m k)
  case Nil
  have "map_option (filter (\<lambda>p. True)) x = x" for x :: "int dict option"
    by (cases x) simp_all
  then show ?case by simp
next
  case (Cons w ws)
  from remove_word_all_eval [OF Cons.prems, of w]
  obtain m1 where s: "remove_word_all m w (categories m) = (m1, None)"
    "categories m1 = categories m" "document_count m1 = document_count m"
    "total_document_count m1 = total_document_count m"
    "\<forall>c. map_of (word_memo m1) c =
       (if c \<in> set (categories m) then map_option (AList.delete w) (map_of (word_memo m) c)
        else map_of (word_memo m) c)"
    by blast
  have keys: "\<forall>c \<in> set (categories m1). map_of (word_memo m1) c \<noteq> None"
    using Cons.prems s(2,5) by simp
  from Cons.IH [OF keys, of "k + 1"]
  obtain m' where r: "cleanup_remove m1 ws (k + 1) = (m', Inr (k + 1 + int (length ws)))"
    "categories m' = categories m1" "document_count m' = document_count m1"
    "total_document_count m' = total_document_count m1"
    "\<forall>c. map_of (word_memo m') c =
       (if c \<in> set (categories m1)
        then map_option (filter (\<lambda>p. fst p \<notin> set ws)) (map_of (word_memo m1) c)
        else map_of (word_memo m1) c)"
    by blast
  have run: "cleanup_remove m (w # ws) k = (m', Inr (k + int (length (w # ws))))"
    using s(1) r(1) by simp
  have fields: "categories m' = categories m" "document_count m' = document_count m"
    "total_document_count m' = total_document_count m"
    using r(2,3,4) s(2,3,4) by simp_all
  have comp: "filter (\<lambda>p. fst p \<notin> set ws) (AList.delete w d) =
      filter (\<lambda>p. fst p \<notin> set (w # ws)) d" for d :: "int dict"
    by (auto simp: delete_as_filter intro: filter_cong)
  have memo: "\<forall>c. map_of (word_memo m') c =
       (if c \<in> set (categories m)
        then map_option (filter (\<lambda>p. fst p \<notin> set (w # ws))) (map_of (word_memo m) c)
        else map_of (word_memo m) c)"
  proof
    fix c
    show "map_of (word_memo m') c =
       (if c \<in> set (categories m)
        then map_option (filter (\<lambda>p. fst p \<notin> set (w # ws))) (map_of (word_memo m) c)
        else map_of (word_memo m) c)"
    proof (cases "map_of (word_memo m) c")
      case None
      then show ?thesis using r(5) s(2,5) by simp
    next
      case (Some d)
      then show ?thesis using r(5) s(2,5) comp [of d] by simp
    qed
  qed
  from run fields memo show ?case by blast
qed

lemma cleanup_scan_eval:
  assumes "\<forall>w \<in> set ws. word_probability m w = Inr (P w)"
  shows "\<exists>acc'. cleanup_scan m thr ws acc = Inr acc' \<and>
    set acc' = set acc \<union> {w \<in> set ws. P w \<ge> thr} \<and> (distinct acc \<longrightarrow> distinct acc')"
  using assms
proof (induction ws arbitrary: acc)
  case Nil
  show ?case by simp
next
  case (Cons w ws)
  have w: "word_probability m w = Inr (P w)" using Cons.prems by simp
  have rest: "\<forall>w \<in> set ws. word_probability m w = Inr (P w)" using Cons.prems by simp
  show ?case
  proof (cases "P w \<ge> thr")
    case True
    from Cons.IH [OF rest, of "List.insert w acc"]
    obtain acc' where "cleanup_scan m thr ws (List.insert w acc) = Inr acc'"
      "set acc' = set (List.insert w acc) \<union> {w \<in> set ws. P w \<ge> thr}"
      "distinct (List.insert w acc) \<longrightarrow> distinct acc'" by blast
    then show ?thesis using w True by auto
  next
    case False
    from Cons.IH [OF rest, of acc]
    obtain acc' where "cleanup_scan m thr ws acc = Inr acc'"
      "set acc' = set acc \<union> {w \<in> set ws. P w \<ge> thr}"
      "distinct acc \<longrightarrow> distinct acc'" by blast
    then show ?thesis using w False by auto
  qed
qed

lemma vocabulary_vocab_in: "vocabulary m = vocab_in m (categories m)"
  by (simp add: vocabulary_def vocab_in_def)

lemma finite_vocab_in: "finite (vocab_in m cs)"
  by (auto simp: vocab_in_def split: option.splits)

lemma vocab_in_Cons:
  "map_of (word_memo m) c = Some d \<Longrightarrow> vocab_in m (c # cs) = fst ` set d \<union> vocab_in m cs"
  by (simp add: vocab_in_def)

lemma map_of_filter_keys:
  "map_of (filter (\<lambda>p. fst p \<notin> T) d) w = (if w \<in> T then None else map_of d w)"
  by (induction d) auto

lemma purged_vocab_in:
  assumes "purged T m m'" "set cs \<subseteq> set (categories m)"
  shows "vocab_in m' cs = vocab_in m cs - T"
proof -
  have "(case map_of (word_memo m') c of None \<Rightarrow> {} | Some d \<Rightarrow> fst ` set d) =
      (case map_of (word_memo m) c of None \<Rightarrow> {} | Some d \<Rightarrow> fst ` set d) - T"
    if "c \<in> set cs" for c
  proof -
    have "map_of (word_memo m') c =
        map_option (filter (\<lambda>p. fst p \<notin> T)) (map_of (word_memo m) c)"
      using assms that by (auto simp: purged_def)
    then show ?thesis
      by (cases "map_of (word_memo m) c") auto
  qed
  then show ?thesis by (auto simp: vocab_in_def)
qed

lemma purged_word_count_of:
  assumes "purged T m m'" "c \<in> set (categories m)" "w \<notin> T"
  shows "word_count_of m' w c = word_count_of m w c"
proof -
  have "map_of (word_memo m') c =
      map_option (filter (\<lambda>p. fst p \<notin> T)) (map_of (word_memo m) c)"
    using assms by (simp add: purged_def)
  then show ?thesis using assms(3)
    by (cases "map_of (word_memo m) c") (simp_all add: word_count_of_def map_of_filter_keys)
qed

lemma purged_noisy:
  assumes "purged T m m'" "model_inv m" "model_inv m'" "w \<notin> T"
  shows "noisy m' thr w = noisy m thr w"
proof -
  have s: "sum_list (map (word_count_of m' w) (categories m)) =
      sum_list (map (word_count_of m w) (categories m))"
    by (rule arg_cong [where f = sum_list], rule map_cong)
      (simp_all add: purged_word_count_of [OF assms(1) _ assms(4)])
  have f: "categories m' = categories m" "total_document_count m' = total_document_count m"
    using assms(1) by (simp_all add: purged_def)
  have "word_probability m' w =
      truediv (sum_list (map (word_count_of m' w) (categories m))) (total_document_count m)"
    using word_probability_eval [OF assms(3), of w] by (simp only: f)
  also have "\<dots> = word_probability m w"
    using word_probability_eval [OF assms(2), of w] by (simp only: s)
  finally show ?thesis by (simp add: noisy_def)
qed

lemma purged_trans:
  assumes "purged T m m1" "purged U m1 m2"
  shows "purged (T \<union> U) m m2"
proof -
  have f: "categories m1 = categories m" using assms(1) by (simp add: purged_def)
  have "map_of (word_memo m2) c =
      map_option (filter (\<lambda>p. fst p \<notin> T \<union> U)) (map_of (word_memo m) c)"
    if "c \<in> set (categories m)" for c
  proof -
    have 1: "map_of (word_memo m1) c =
        map_option (filter (\<lambda>p. fst p \<notin> T)) (map_of (word_memo m) c)"
      using assms(1) that by (simp add: purged_def)
    have 2: "map_of (word_memo m2) c =
        map_option (filter (\<lambda>p. fst p \<notin> U)) (map_of (word_memo m1) c)"
      using assms(2) that f by (simp add: purged_def)
    have "filter (\<lambda>p. fst p \<notin> U) (filter (\<lambda>p. fst p \<notin> T) d) =
        filter (\<lambda>p. fst p \<notin> T \<union> U) d" for d :: "int dict"
      by (auto intro: filter_cong)
    then show ?thesis using 1 2 by (cases "map_of (word_memo m) c") simp_all
  qed
  then show ?thesis using assms by (simp add: purged_def)
qed

lemma model_inv_total_nonneg:
  assumes "model_inv m"
  shows "0 \<le> total_document_count m"
proof -
  have "0 \<le> sum_list (map (doc_count_of m) (remdups (categories m)))"
    by (rule sum_list_nonneg) (auto simp: model_inv_doc_count(2) [OF assms])
  then show ?thesis using model_inv_total [OF assms] by simp
qed

lemma cleanup_loop_eval:
  assumes "model_inv m" "total_document_count m > 0" "set cs \<subseteq> set (categories m)"
  shows "\<exists>m'. cleanup_loop m thr cs k =
      (m', Inr (k + int (card {w \<in> vocab_in m cs. noisy m thr w}))) \<and>
    purged {w \<in> vocab_in m cs. noisy m thr w} m m'"
  using assms
proof (induction cs arbitrary: m k)
  case Nil
  have "map_option (filter (\<lambda>p. True)) x = x" for x :: "int dict option"
    by (cases x) simp_all
  then show ?case by (simp add: vocab_in_def purged_def)
next
  case (Cons c cs)
  have c: "c \<in> set (categories m)" and cs: "set cs \<subseteq> set (categories m)"
    using Cons.prems(3) by simp_all
  from Cons.prems(1) c have "category_inv m c" by (simp add: model_inv_def)
  then obtain d n where d: "map_of (word_memo m) c = Some d"
    by (rule category_invD)
  define P where "P = (\<lambda>w. of_int (sum_list (map (word_count_of m w) (categories m))) /
    (of_int (total_document_count m) :: rat))"
  have wp: "\<forall>w. word_probability m w = Inr (P w)"
    using trained_probabilities(1) [OF Cons.prems(1,2)] by (simp add: P_def)
  then have noisy: "\<And>w. noisy m thr w = (P w \<ge> thr)" by (simp add: noisy_def)
  from cleanup_scan_eval [of "map fst d" m P thr "[]"] wp
  obtain T where T: "cleanup_scan m thr (map fst d) [] = Inr T"
    "set T = {w \<in> fst ` set d. noisy m thr w}" "distinct T"
    by (auto simp: noisy)
  have keys: "\<forall>c \<in> set (categories m). map_of (word_memo m) c \<noteq> None"
  proof
    fix x assume "x \<in> set (categories m)"
    with Cons.prems(1) have "category_inv m x" by (simp add: model_inv_def)
    then obtain dx where "map_of (word_memo m) x = Some dx" by (rule category_invD)
    then show "map_of (word_memo m) x \<noteq> None" by simp
  qed
  from cleanup_remove_eval [OF keys, of T k]
  obtain m1 where m1: "cleanup_remove m T k = (m1, Inr (k + int (length T)))"
    and p1: "purged (set T) m m1"
    by (auto simp: purged_def)
  have inv1: "model_inv m1"
    using cleanup_remove_preserves [OF Cons.prems(1), of T k] m1 by simp
  have f1: "categories m1 = categories m" "total_document_count m1 = total_document_count m"
    using p1 by (simp_all add: purged_def)
  have tot1: "total_document_count m1 > 0" using Cons.prems(2) f1 by simp
  have cs1: "set cs \<subseteq> set (categories m1)" using cs f1 by simp
  define N1 where "N1 = {w \<in> vocab_in m1 cs. noisy m1 thr w}"
  from Cons.IH [OF inv1 tot1 cs1, of "k + int (length T)"]
  obtain m' where r: "cleanup_loop m1 thr cs (k + int (length T)) =
      (m', Inr (k + int (length T) + int (card N1)))"
    and p2: "purged N1 m1 m'"
    by (auto simp: N1_def)
  have run: "cleanup_loop m thr (c # cs) k = (m', Inr (k + int (length T) + int (card N1)))"
    using d T(1) m1 r by (simp add: getitem_def)
  have N1: "N1 = {w \<in> vocab_in m cs. noisy m thr w} - set T"
    using purged_vocab_in [OF p1 cs] purged_noisy [OF p1 Cons.prems(1) inv1, of _ thr]
    by (auto simp: N1_def)
  have split: "{w \<in> vocab_in m (c # cs). noisy m thr w} = set T \<union> N1"
    using T(2) by (auto simp: N1 vocab_in_Cons [OF d])
  have disj: "set T \<inter> N1 = {}" by (auto simp: N1)
  have "finite N1" using finite_vocab_in [of m1 cs] by (simp add: N1_def)
  then have "card (set T \<union> N1) = card (set T) + card N1"
    using disj by (intro card_Un_disjoint) simp_all
  then have card: "int (card {w \<in> vocab_in m (c # cs). noisy m thr w}) =
      int (length T) + int (card N1)"
    using T(3) by (simp add: split distinct_card)
  have "purged (set T \<union> N1) m m'" using p1 p2 by (rule purged_trans)
  then have "purged {w \<in> vocab_in m (c # cs). noisy m thr w} m m'" by (simp add: split)
  moreover have "cleanup_loop m thr (c # cs) k =
      (m', Inr (k + int (card {w \<in> vocab_in m (c # cs). noisy m thr w})))"
    using run card by simp
  ultimately show ?case by blast
qed

lemma cleanup_loop_nothing:
  assumes "\<forall>c \<in> set cs. \<exists>d. map_of (word_memo m) c = Some d \<and>
    cleanup_scan m thr (map fst d) [] = Inr []"
  shows "cleanup_loop m thr cs k = (m, Inr k)"
  using assms
proof (induction cs)
  case Nil
  show ?case by simp
next
  case (Cons c cs)
  from Cons.prems obtain d where d: "map_of (word_memo m) c = Some d"
    "cleanup_scan m thr (map fst d) [] = Inr []" by auto
  have "cleanup_loop m thr cs k = (m, Inr k)" using Cons by simp
  then show ?case using d by (simp add: getitem_def)
qed

lemma untrained_empty:
  assumes "model_inv m" "total_document_count m = 0" "c \<in> set (categories m)"
  shows "map_of (word_memo m) c = Some []"
proof -
  have nn: "\<And>x. x \<in> set (categories m) \<Longrightarrow> 0 \<le> doc_count_of m x"
    by (rule model_inv_doc_count(2) [OF assms(1)])
  have "sum_list (map (doc_count_of m) (remdups (categories m))) = 0"
    using model_inv_total [OF assms(1)] assms(2) by simp
  then have "\<forall>x \<in> set (map (doc_count_of m) (remdups (categories m))). x = 0"
    using nn sum_list_nonneg_eq_0_iff [of "map (doc_count_of m) (remdups (categories m))"]
    by auto
  then have z: "doc_count_of m c = 0" using assms(3) by simp
  from assms have "category_inv m c" by (simp add: model_inv_def)
  then obtain d n where o: "map_of (word_memo m) c = Some d"
    "map_of (document_count m) c = Some n"
    "distinct (map fst d)" "\<forall>w k. map_of d w = Some k \<longrightarrow> 1 \<le> k \<and> k \<le> n"
    by (rule category_invD)
  have n: "n = 0" using z o(2) by (simp add: doc_count_of_def)
  have "d = []"
  proof (cases d)
    case Nil
    then show ?thesis .
  next
    case (Cons p ps)
    then have "map_of d (fst p) = Some (snd p)" by simp
    then have "1 \<le> snd p \<and> snd p \<le> n" using o(4) by blast
    then show ?thesis using n by linarith
  qed
  then show ?thesis using o(1) by simp
qed

lemma in_vocabulary:
  "c \<in> set (categories m) \<Longrightarrow> map_of (word_memo m) c = Some d \<Longrightarrow> p \<in> set d \<Longrightarrow>
   fst p \<in> vocabulary m"
  by (force simp: vocabulary_def)

text \<open>
  Claim C6. In a well-formed state cleanup returns; afterwards the mapping of every
  configured category is the old one without the tokens whose marginal probability
  reaches the threshold, so each such token is gone from all mappings; and the count it
  reports is the number of distinct such tokens present in some mapping, whatever the
  number of mappings a token was in.
\<close>

theorem cleanup_removes_noisy_tokens:
  assumes "model_inv m"
  shows "\<exists>m'. cleanup m threshold =
      (m', Inr (int (card {w \<in> vocabulary m. noisy m threshold w}))) \<and>
    (\<forall>c \<in> set (categories m). \<exists>d. map_of (word_memo m) c = Some d \<and>
       map_of (word_memo m') c = Some (filter (\<lambda>(w, k). \<not> noisy m threshold w) d))"
proof (cases "total_document_count m > 0")
  case True
  define N where "N = {w \<in> vocabulary m. noisy m threshold w}"
  from cleanup_loop_eval [OF assms True subset_refl, of threshold 0]
  obtain m' where r: "cleanup m threshold = (m', Inr (int (card N)))" and p: "purged N m m'"
    by (auto simp: cleanup_def N_def vocabulary_vocab_in)
  have "\<exists>d. map_of (word_memo m) c = Some d \<and>
       map_of (word_memo m') c = Some (filter (\<lambda>(w, k). \<not> noisy m threshold w) d)"
    if c: "c \<in> set (categories m)" for c
  proof -
    from assms c have "category_inv m c" by (simp add: model_inv_def)
    then obtain d n where d: "map_of (word_memo m) c = Some d" by (rule category_invD)
    have "map_of (word_memo m') c = Some (filter (\<lambda>p. fst p \<notin> N) d)"
      using p c d by (simp add: purged_def)
    moreover have "filter (\<lambda>p. fst p \<notin> N) d = filter (\<lambda>(w, k). \<not> noisy m threshold w) d"
      using in_vocabulary [OF c d] by (intro filter_cong) (auto simp: N_def)
    ultimately show ?thesis using d by simp
  qed
  with r show ?thesis unfolding N_def by blast
next
  case False
  then have z: "total_document_count m = 0"
    using model_inv_total_nonneg [OF assms] by simp
  have empty: "\<And>c. c \<in> set (categories m) \<Longrightarrow> map_of (word_memo m) c = Some []"
    by (rule untrained_empty [OF assms z])
  have "cleanup_loop m threshold (categories m) 0 = (m, Inr 0)"
    by (rule cleanup_loop_nothing) (simp add: empty)
  moreover have "vocabulary m = {}" by (simp add: vocabulary_def empty)
  ultimately have "cleanup m threshold =
      (m, Inr (int (card {w \<in> vocabulary m. noisy m threshold w})))"
    by (simp add: cleanup_def)
  then show ?thesis using empty by auto
qed

theorem cleanup_removes_noisy_tokens_witness:
  "cleanup shared_model 1 =
     (shared_model\<lparr>word_memo := [(''spam'', []), (''ham'', [(''you'', 1)])]\<rparr>, Inr 1) \<and>
   noisy shared_model 1 ''hello'' \<and> \<not> noisy shared_model 1 ''you''"
  using cleanup_removes_noisy_tokens [OF model_inv_shared_model, of 1]
  by (simp add: shared_model_def cleanup_def pop_word_def noisy_def word_probability_def
      word_count_def getitem_def truediv_def)

subsection \<open>Cleanup with threshold 1\<close>

text \<open>
  Claim C2, as amended. In a well-formed state in which every token of the mappings has
  a summed count over the configured categories below total_document_count (no token
  occurred in every training document), cleanup with threshold 1 removes 0 tokens and
  leaves the state as it is.
\<close>

theorem cleanup_threshold_one:
  assumes "model_inv m"
    and "\<forall>w \<in> vocabulary m. \<exists>s. sum_gen (word_count m w) (categories m) = Inr s \<and>
      s < total_document_count m"
  shows "cleanup m 1 = (m, Inr 0)"
proof -
  have sums: "sum_gen (word_count m w) (categories m) =
      Inr (sum_list (map (word_count_of m w) (categories m)))" for w
    by (rule sum_gen_Inr) (rule model_inv_word_count_of(1) [OF assms(1)])
  have less: "sum_list (map (word_count_of m w) (categories m)) < total_document_count m"
    if "w \<in> vocabulary m" for w
    using assms(2) that sums [of w] by auto
  have "\<exists>d. map_of (word_memo m) c = Some d \<and> cleanup_scan m 1 (map fst d) [] = Inr []"
    if c: "c \<in> set (categories m)" for c
  proof -
    from assms(1) c have "category_inv m c" by (simp add: model_inv_def)
    then obtain d n where d: "map_of (word_memo m) c = Some d" by (rule category_invD)
    define P where "P = (\<lambda>w. of_int (sum_list (map (word_count_of m w) (categories m))) /
      (of_int (total_document_count m) :: rat))"
    have "cleanup_scan m 1 (map fst d) [] = Inr []"
    proof (cases "total_document_count m > 0")
      case True
      have wp: "\<forall>w \<in> set (map fst d). word_probability m w = Inr (P w)"
        using trained_probabilities(1) [OF assms(1) True] by (simp add: P_def)
      have "P w < 1" if "w \<in> set (map fst d)" for w
      proof -
        from that obtain p where "p \<in> set d" "w = fst p" by auto
        then have "w \<in> vocabulary m" using in_vocabulary [OF c d] by simp
        then show ?thesis using less [of w] True by (simp add: P_def)
      qed
      then have none: "{w \<in> set (map fst d). P w \<ge> 1} = {}" by (auto simp: not_le)
      from cleanup_scan_eval [OF wp, of 1 "[]"]
      obtain acc' where "cleanup_scan m 1 (map fst d) [] = Inr acc'"
        "set acc' = set [] \<union> {w \<in> set (map fst d). P w \<ge> 1}" by blast
      then have "set acc' = {}" "cleanup_scan m 1 (map fst d) [] = Inr acc'"
        using none by simp_all
      then show ?thesis by simp
    next
      case False
      then have "total_document_count m = 0"
        using model_inv_total_nonneg [OF assms(1)] by simp
      then have "d = []" using untrained_empty [OF assms(1) _ c] d by simp
      then show ?thesis by simp
    qed
    with d show ?thesis by simp
  qed
  then have "cleanup_loop m 1 (categories m) 0 = (m, Inr 0)"
    by (intro cleanup_loop_nothing) simp
  then show ?thesis by (simp add: cleanup_def)
qed

lemma model_inv_scenario_model: "model_inv scenario_model"
  by (simp add: model_inv_def category_inv_def scenario_model_def getitem_def)

theorem cleanup_threshold_one_witness:
  "train_all toy_nltk (init [''spam'', ''ham''])
     [(''free money now'', ''spam''), (''meeting agenda'', ''ham'')] = (scenario_model, None) \<and>
   cleanup scenario_model 1 = (scenario_model, Inr 0)"
proof -
  have v: "vocabulary scenario_model = {''free'', ''money'', ''now'', ''meeting'', ''agenda''}"
    by (auto simp: vocabulary_def scenario_model_def)
  have h: "\<forall>w \<in> vocabulary scenario_model.
      \<exists>s. sum_gen (word_count scenario_model w) (categories scenario_model) = Inr s \<and>
        s < total_document_count scenario_model"
    unfolding v by (simp add: scenario_model_def word_count_def getitem_def)
  have t: "train_all toy_nltk (init [''spam'', ''ham''])
     [(''free money now'', ''spam''), (''meeting agenda'', ''ham'')] = (scenario_model, None)"
    by (simp add: scenario_model_def init_def init_category_def train_def add_word_def
        tokenize_def toy_nltk_def getitem_def)
  show ?thesis
    using cleanup_threshold_one [OF model_inv_scenario_model h] t by simp
qed

text \<open>
  The claim as stated fails when a token occurs in every training document: after
  \<^verbatim>\<open>train("hello", "spam")\<close> and \<^verbatim>\<open>train("hello you", "ham")\<close> both categories
  have a document, the marginal probability of \<^verbatim>\<open>"hello"\<close> is 2 / 2 = 1, and cleanup
  with threshold 1 removes it.
\<close>

theorem cleanup_threshold_one_counterexample:
  "train_all toy_nltk (init [''spam'', ''ham''])
     [(''hello'', ''spam''), (''hello you'', ''ham'')] = (shared_model, None) \<and>
   document_count shared_model = [(''spam'', 1), (''ham'', 1)] \<and>
   word_probability shared_model ''hello'' = Inr 1 \<and>
   cleanup shared_model 1 =
     (shared_model\<lparr>word_memo := [(''spam'', []), (''ham'', [(''you'', 1)])]\<rparr>, Inr 1)"
  by (simp add: shared_model_def init_def init_category_def train_def add_word_def
      tokenize_def toy_nltk_def cleanup_def pop_word_def word_probability_def
      word_count_def getitem_def truediv_def)

end
